theory Spec2Isabelle
  imports Main "HOL-Library.Word" "HOL-Library.Monad_Syntax"
begin

unbundle bit_operations_syntax

section \<open>Machine words and the macros of definitions.h\<close>

text \<open>
  \<^verbatim>\<open>u8\<close>, \<^verbatim>\<open>u32\<close> and \<^verbatim>\<open>u64\<close> are the unsigned fixed-width integers of
  \<^verbatim>\<open>definitions.h\<close>. A C array is a list; reading or writing outside an array is
  undefined behaviour in C, so every theorem below fixes the lengths of the arrays to
  the sizes that \<^verbatim>\<open>dpi_c_run_simon\<close> allocates. The loop counters of the cipher functions
  never leave the range \<open>-1 .. 72\<close>, so no counter wraps around: the unsigned ones are
  \<open>nat\<close>, the signed ones \<open>int\<close>.
\<close>

type_synonym u8 = "8 word"
type_synonym u32 = "32 word"
type_synonym u64 = "64 word"

text \<open>\<^verbatim>\<open>#define ROTL32(x,r) (((x)<<(r)) | (x>>(32-(r))))\<close> and its three siblings.\<close>

definition ROTL32 :: "u32 \<Rightarrow> nat \<Rightarrow> u32" where
  "ROTL32 x r = push_bit r x OR drop_bit (32 - r) x"

definition ROTR32 :: "u32 \<Rightarrow> nat \<Rightarrow> u32" where
  "ROTR32 x r = drop_bit r x OR push_bit (32 - r) x"

definition ROTL64 :: "u64 \<Rightarrow> nat \<Rightarrow> u64" where
  "ROTL64 x r = push_bit r x OR drop_bit (64 - r) x"

definition ROTR64 :: "u64 \<Rightarrow> nat \<Rightarrow> u64" where
  "ROTR64 x r = drop_bit r x OR push_bit (64 - r) x"

definition N_ROUNDS__64_96 :: nat where "N_ROUNDS__64_96 = 42"
definition N_ROUNDS__64_128 :: nat where "N_ROUNDS__64_128 = 44"
definition N_ROUNDS__128_128 :: nat where "N_ROUNDS__128_128 = 68"
definition N_ROUNDS__128_192 :: nat where "N_ROUNDS__128_192 = 69"
definition N_ROUNDS__128_256 :: nat where "N_ROUNDS__128_256 = 72"

definition MODE_ENC :: int where "MODE_ENC = 0"
definition MODE_DEC :: int where "MODE_DEC = 1"

section \<open>simon64.h\<close>

text \<open>\<^verbatim>\<open>#define f32(x) ((ROTL32(x,1) & ROTL32(x,8)) ^ ROTL32(x,2))\<close>\<close>

definition f32 :: "u32 \<Rightarrow> u32" where
  "f32 x = (ROTL32 x 1 AND ROTL32 x 8) XOR ROTL32 x 2"

text \<open>
  \<^verbatim>\<open>#define R32x2(x,y,k1,k2) (y^=f32(x), y^=k1, x^=f32(y), x^=k2)\<close>: the macro
  assigns to its first two arguments; the model returns their new values \<open>(x, y)\<close>.
  The comma operator orders the four assignments, and with them the two \<^verbatim>\<open>i++\<close> or
  \<^verbatim>\<open>i--\<close> that the callers pass in \<^verbatim>\<open>k1\<close> and \<^verbatim>\<open>k2\<close>.
\<close>

definition R32x2 :: "u32 \<Rightarrow> u32 \<Rightarrow> u32 \<Rightarrow> u32 \<Rightarrow> u32 \<times> u32" where
  "R32x2 x y k1 k2 =
     (let y = y XOR f32 x; y = y XOR k1; x = x XOR f32 y; x = x XOR k2 in (x, y))"

text \<open>
  The local \<^verbatim>\<open>c\<close> of the 32-bit key schedules and the local \<^verbatim>\<open>z\<close> of each of them,
  named after the function that declares it.
\<close>

definition c32 :: u32 where "c32 = 0xfffffffc"

definition z_Simon6496 :: u64 where "z_Simon6496 = 0x7369f885192c0ef5"
definition z_Simon64128 :: u64 where "z_Simon64128 = 0xfc2ce51207a635db"

text \<open>
  \<^verbatim>\<open>Simon6496KeySchedule\<close>. The loop state is \<open>i\<close>, \<open>z\<close> and the array \<open>rk\<close>. In
  \<^verbatim>\<open>c^(z&1)^rk[i-3]^...\<close> the operand \<^verbatim>\<open>z&1\<close> is 64 bits wide, so C widens the other
  operands to 64 bits and the assignment to \<^verbatim>\<open>rk[i]\<close> truncates the result.
\<close>

function Simon6496KeySchedule_loop :: "nat \<Rightarrow> u64 \<Rightarrow> u32 list \<Rightarrow> u32 list" where
  "Simon6496KeySchedule_loop i z rk =
     (if i < 42 then
        Simon6496KeySchedule_loop (i + 1) (drop_bit 1 z)
          (rk[i := ucast ((ucast c32 :: u64) XOR (z AND 1) XOR ucast (rk ! (i - 3))
                    XOR ucast (ROTR32 (rk ! (i - 1)) 3) XOR ucast (ROTR32 (rk ! (i - 1)) 4))])
      else rk)"
  by pat_completeness auto
termination
  by (relation "measure (\<lambda>(i, z, rk). 42 - i)") auto

declare Simon6496KeySchedule_loop.simps [simp del]

definition Simon6496KeySchedule :: "u32 list \<Rightarrow> u32 list \<Rightarrow> u32 list" where
  "Simon6496KeySchedule K rk =
     (let rk = rk[0 := K ! 0]; rk = rk[1 := K ! 1]; rk = rk[2 := K ! 2]
      in Simon6496KeySchedule_loop 3 z_Simon6496 rk)"

text \<open>
  \<^verbatim>\<open>Simon6496Encrypt\<close> returns the final contents of \<^verbatim>\<open>Ct\<close>. The loop has no
  increment clause: the two \<^verbatim>\<open>i++\<close> inside the macro call advance \<open>i\<close> by 2.
\<close>

function Simon6496Encrypt_loop :: "nat \<Rightarrow> u32 list \<Rightarrow> u32 list \<Rightarrow> u32 list" where
  "Simon6496Encrypt_loop i Ct rk =
     (if i < 42 then
        (case R32x2 (Ct ! 1) (Ct ! 0) (rk ! i) (rk ! (i + 1)) of
           (x, y) \<Rightarrow> Simon6496Encrypt_loop (i + 2) (Ct[1 := x, 0 := y]) rk)
      else Ct)"
  by pat_completeness auto
termination
  by (relation "measure (\<lambda>(i, Ct, rk). 42 - i)") auto

declare Simon6496Encrypt_loop.simps [simp del]

definition Simon6496Encrypt :: "u32 list \<Rightarrow> u32 list \<Rightarrow> u32 list \<Rightarrow> u32 list" where
  "Simon6496Encrypt Pt Ct rk =
     (let Ct = Ct[1 := Pt ! 1]; Ct = Ct[0 := Pt ! 0]
      in Simon6496Encrypt_loop 0 Ct rk)"

text \<open>
  \<^verbatim>\<open>Simon6496Decrypt\<close> returns the final contents of \<^verbatim>\<open>Pt\<close>. Its counter is a signed
  \<^verbatim>\<open>int\<close> that ends at \<open>-1\<close>.
\<close>

function Simon6496Decrypt_loop :: "int \<Rightarrow> u32 list \<Rightarrow> u32 list \<Rightarrow> u32 list" where
  "Simon6496Decrypt_loop i Pt rk =
     (if i \<ge> 0 then
        (case R32x2 (Pt ! 0) (Pt ! 1) (rk ! nat i) (rk ! nat (i - 1)) of
           (x, y) \<Rightarrow> Simon6496Decrypt_loop (i - 2) (Pt[0 := x, 1 := y]) rk)
      else Pt)"
  by pat_completeness auto
termination
  by (relation "measure (\<lambda>(i, Pt, rk). nat (i + 1))") auto

declare Simon6496Decrypt_loop.simps [simp del]

definition Simon6496Decrypt :: "u32 list \<Rightarrow> u32 list \<Rightarrow> u32 list \<Rightarrow> u32 list" where
  "Simon6496Decrypt Pt Ct rk =
     (let Pt = Pt[1 := Ct ! 1]; Pt = Pt[0 := Ct ! 0]
      in Simon6496Decrypt_loop 41 Pt rk)"

text \<open>
  \<^verbatim>\<open>Simon64128KeySchedule\<close>, \<^verbatim>\<open>Simon64128Encrypt\<close> and \<^verbatim>\<open>Simon64128Decrypt\<close>.
\<close>

function Simon64128KeySchedule_loop :: "nat \<Rightarrow> u64 \<Rightarrow> u32 list \<Rightarrow> u32 list" where
  "Simon64128KeySchedule_loop i z rk =
     (if i < 44 then
        Simon64128KeySchedule_loop (i + 1) (drop_bit 1 z)
          (rk[i := ucast ((ucast c32 :: u64) XOR (z AND 1) XOR ucast (rk ! (i - 4))
                    XOR ucast (ROTR32 (rk ! (i - 1)) 3) XOR ucast (rk ! (i - 3))
                    XOR ucast (ROTR32 (rk ! (i - 1)) 4) XOR ucast (ROTR32 (rk ! (i - 3)) 1))])
      else rk)"
  by pat_completeness auto
termination
  by (relation "measure (\<lambda>(i, z, rk). 44 - i)") auto

declare Simon64128KeySchedule_loop.simps [simp del]

definition Simon64128KeySchedule :: "u32 list \<Rightarrow> u32 list \<Rightarrow> u32 list" where
  "Simon64128KeySchedule K rk =
     (let rk = rk[0 := K ! 0]; rk = rk[1 := K ! 1]; rk = rk[2 := K ! 2]; rk = rk[3 := K ! 3]
      in Simon64128KeySchedule_loop 4 z_Simon64128 rk)"

function Simon64128Encrypt_loop :: "nat \<Rightarrow> u32 list \<Rightarrow> u32 list \<Rightarrow> u32 list" where
  "Simon64128Encrypt_loop i Ct rk =
     (if i < 44 then
        (case R32x2 (Ct ! 1) (Ct ! 0) (rk ! i) (rk ! (i + 1)) of
           (x, y) \<Rightarrow> Simon64128Encrypt_loop (i + 2) (Ct[1 := x, 0 := y]) rk)
      else Ct)"
  by pat_completeness auto
termination
  by (relation "measure (\<lambda>(i, Ct, rk). 44 - i)") auto

declare Simon64128Encrypt_loop.simps [simp del]

definition Simon64128Encrypt :: "u32 list \<Rightarrow> u32 list \<Rightarrow> u32 list \<Rightarrow> u32 list" where
  "Simon64128Encrypt Pt Ct rk =
     (let Ct = Ct[1 := Pt ! 1]; Ct = Ct[0 := Pt ! 0]
      in Simon64128Encrypt_loop 0 Ct rk)"

function Simon64128Decrypt_loop :: "int \<Rightarrow> u32 list \<Rightarrow> u32 list \<Rightarrow> u32 list" where
  "Simon64128Decrypt_loop i Pt rk =
     (if i \<ge> 0 then
        (case R32x2 (Pt ! 0) (Pt ! 1) (rk ! nat i) (rk ! nat (i - 1)) of
           (x, y) \<Rightarrow> Simon64128Decrypt_loop (i - 2) (Pt[0 := x, 1 := y]) rk)
      else Pt)"
  by pat_completeness auto
termination
  by (relation "measure (\<lambda>(i, Pt, rk). nat (i + 1))") auto

declare Simon64128Decrypt_loop.simps [simp del]

definition Simon64128Decrypt :: "u32 list \<Rightarrow> u32 list \<Rightarrow> u32 list \<Rightarrow> u32 list" where
  "Simon64128Decrypt Pt Ct rk =
     (let Pt = Pt[1 := Ct ! 1]; Pt = Pt[0 := Ct ! 0]
      in Simon64128Decrypt_loop 43 Pt rk)"

section \<open>simon128.h\<close>

text \<open>\<^verbatim>\<open>#define f64(x) ((ROTL64(x,1) & ROTL64(x,8)) ^ ROTL64(x,2))\<close>\<close>

definition f64 :: "u64 \<Rightarrow> u64" where
  "f64 x = (ROTL64 x 1 AND ROTL64 x 8) XOR ROTL64 x 2"

text \<open>\<^verbatim>\<open>#define R64x2(x,y,k1,k2) (y^=f64(x), y^=k1, x^=f64(y), x^=k2)\<close>\<close>

definition R64x2 :: "u64 \<Rightarrow> u64 \<Rightarrow> u64 \<Rightarrow> u64 \<Rightarrow> u64 \<times> u64" where
  "R64x2 x y k1 k2 =
     (let y = y XOR f64 x; y = y XOR k1; x = x XOR f64 y; x = x XOR k2 in (x, y))"

definition c64 :: u64 where "c64 = 0xfffffffffffffffc"

definition z_Simon128128 :: u64 where "z_Simon128128 = 0x7369f885192c0ef5"
definition z_Simon128192 :: u64 where "z_Simon128192 = 0xfc2ce51207a635db"
definition z_Simon128256 :: u64 where "z_Simon128256 = 0xfdc94c3a046d678b"

text \<open>
  \<^verbatim>\<open>Simon128128KeySchedule\<close>. The state of its loop is \<open>(i, A, B, z, rk)\<close>; one pass of
  the body emits \<open>A\<close> and \<open>B\<close> and advances \<open>i\<close> by 2 through the two \<^verbatim>\<open>i++\<close>.
\<close>

definition Simon128128KeySchedule_body ::
  "nat \<times> u64 \<times> u64 \<times> u64 \<times> u64 list \<Rightarrow> nat \<times> u64 \<times> u64 \<times> u64 \<times> u64 list" where
  "Simon128128KeySchedule_body = (\<lambda>(i, A, B, z, rk).
     let rk = rk[i := A]; i = i + 1;
         A = A XOR (c64 XOR (z AND 1) XOR ROTR64 B 3 XOR ROTR64 B 4); z = drop_bit 1 z;
         rk = rk[i := B]; i = i + 1;
         B = B XOR (c64 XOR (z AND 1) XOR ROTR64 A 3 XOR ROTR64 A 4); z = drop_bit 1 z
     in (i, A, B, z, rk))"

function Simon128128KeySchedule_loop ::
  "nat \<times> u64 \<times> u64 \<times> u64 \<times> u64 list \<Rightarrow> nat \<times> u64 \<times> u64 \<times> u64 \<times> u64 list" where
  "Simon128128KeySchedule_loop (i, A, B, z, rk) =
     (if i < 64 then Simon128128KeySchedule_loop (Simon128128KeySchedule_body (i, A, B, z, rk))
      else (i, A, B, z, rk))"
  by pat_completeness auto
termination
  by (relation "measure (\<lambda>(i, A, B, z, rk). 64 - i)")
     (auto simp: Simon128128KeySchedule_body_def Let_def)

declare Simon128128KeySchedule_loop.simps [simp del]

definition Simon128128KeySchedule :: "u64 list \<Rightarrow> u64 list \<Rightarrow> u64 list" where
  "Simon128128KeySchedule K rk =
     (case Simon128128KeySchedule_loop (0, K ! 0, K ! 1, z_Simon128128, rk) of
        (i, A, B, z, rk) \<Rightarrow>
          let rk = rk[64 := A]; A = A XOR (c64 XOR 1 XOR ROTR64 B 3 XOR ROTR64 B 4);
              rk = rk[65 := B]; B = B XOR (c64 XOR 0 XOR ROTR64 A 3 XOR ROTR64 A 4);
              rk = rk[66 := A]; rk = rk[67 := B]
          in rk)"

function Simon128128Encrypt_loop :: "nat \<Rightarrow> u64 list \<Rightarrow> u64 list \<Rightarrow> u64 list" where
  "Simon128128Encrypt_loop i Ct rk =
     (if i < 68 then
        (case R64x2 (Ct ! 1) (Ct ! 0) (rk ! i) (rk ! (i + 1)) of
           (x, y) \<Rightarrow> Simon128128Encrypt_loop (i + 2) (Ct[1 := x, 0 := y]) rk)
      else Ct)"
  by pat_completeness auto
termination
  by (relation "measure (\<lambda>(i, Ct, rk). 68 - i)") auto

declare Simon128128Encrypt_loop.simps [simp del]

definition Simon128128Encrypt :: "u64 list \<Rightarrow> u64 list \<Rightarrow> u64 list \<Rightarrow> u64 list" where
  "Simon128128Encrypt Pt Ct rk =
     (let Ct = Ct[0 := Pt ! 0]; Ct = Ct[1 := Pt ! 1]
      in Simon128128Encrypt_loop 0 Ct rk)"

function Simon128128Decrypt_loop :: "int \<Rightarrow> u64 list \<Rightarrow> u64 list \<Rightarrow> u64 list" where
  "Simon128128Decrypt_loop i Pt rk =
     (if i \<ge> 0 then
        (case R64x2 (Pt ! 0) (Pt ! 1) (rk ! nat i) (rk ! nat (i - 1)) of
           (x, y) \<Rightarrow> Simon128128Decrypt_loop (i - 2) (Pt[0 := x, 1 := y]) rk)
      else Pt)"
  by pat_completeness auto
termination
  by (relation "measure (\<lambda>(i, Pt, rk). nat (i + 1))") auto

declare Simon128128Decrypt_loop.simps [simp del]

definition Simon128128Decrypt :: "u64 list \<Rightarrow> u64 list \<Rightarrow> u64 list \<Rightarrow> u64 list" where
  "Simon128128Decrypt Pt Ct rk =
     (let Pt = Pt[0 := Ct ! 0]; Pt = Pt[1 := Ct ! 1]
      in Simon128128Decrypt_loop 67 Pt rk)"

text \<open>
  \<^verbatim>\<open>Simon128192KeySchedule\<close>: the loop state is \<open>(i, A, B, C, z, rk)\<close> and one pass of
  the body advances \<open>i\<close> by 3.
\<close>

definition Simon128192KeySchedule_body ::
  "nat \<times> u64 \<times> u64 \<times> u64 \<times> u64 \<times> u64 list \<Rightarrow> nat \<times> u64 \<times> u64 \<times> u64 \<times> u64 \<times> u64 list" where
  "Simon128192KeySchedule_body = (\<lambda>(i, A, B, C, z, rk).
     let rk = rk[i := A]; i = i + 1;
         A = A XOR (c64 XOR (z AND 1) XOR ROTR64 C 3 XOR ROTR64 C 4); z = drop_bit 1 z;
         rk = rk[i := B]; i = i + 1;
         B = B XOR (c64 XOR (z AND 1) XOR ROTR64 A 3 XOR ROTR64 A 4); z = drop_bit 1 z;
         rk = rk[i := C]; i = i + 1;
         C = C XOR (c64 XOR (z AND 1) XOR ROTR64 B 3 XOR ROTR64 B 4); z = drop_bit 1 z
     in (i, A, B, C, z, rk))"

function Simon128192KeySchedule_loop ::
  "nat \<times> u64 \<times> u64 \<times> u64 \<times> u64 \<times> u64 list \<Rightarrow> nat \<times> u64 \<times> u64 \<times> u64 \<times> u64 \<times> u64 list" where
  "Simon128192KeySchedule_loop (i, A, B, C, z, rk) =
     (if i < 63 then
        Simon128192KeySchedule_loop (Simon128192KeySchedule_body (i, A, B, C, z, rk))
      else (i, A, B, C, z, rk))"
  by pat_completeness auto
termination
  by (relation "measure (\<lambda>(i, A, B, C, z, rk). 63 - i)")
     (auto simp: Simon128192KeySchedule_body_def Let_def)

declare Simon128192KeySchedule_loop.simps [simp del]

definition Simon128192KeySchedule :: "u64 list \<Rightarrow> u64 list \<Rightarrow> u64 list" where
  "Simon128192KeySchedule K rk =
     (case Simon128192KeySchedule_loop (0, K ! 0, K ! 1, K ! 2, z_Simon128192, rk) of
        (i, A, B, C, z, rk) \<Rightarrow>
          let rk = rk[63 := A]; A = A XOR (c64 XOR 1 XOR ROTR64 C 3 XOR ROTR64 C 4);
              rk = rk[64 := B]; B = B XOR (c64 XOR 0 XOR ROTR64 A 3 XOR ROTR64 A 4);
              rk = rk[65 := C]; C = C XOR (c64 XOR 1 XOR ROTR64 B 3 XOR ROTR64 B 4);
              rk = rk[66 := A]; rk = rk[67 := B]; rk = rk[68 := C]
          in rk)"

text \<open>
  \<^verbatim>\<open>Simon128192Encrypt\<close>: 34 passes of the paired loop, then the statement
  \<^verbatim>\<open>t=Ct[1]; Ct[1]=Ct[0]^f64(Ct[1])^rk[68]; Ct[0]=t;\<close>.
\<close>

function Simon128192Encrypt_loop :: "nat \<Rightarrow> u64 list \<Rightarrow> u64 list \<Rightarrow> u64 list" where
  "Simon128192Encrypt_loop i Ct rk =
     (if i < 68 then
        (case R64x2 (Ct ! 1) (Ct ! 0) (rk ! i) (rk ! (i + 1)) of
           (x, y) \<Rightarrow> Simon128192Encrypt_loop (i + 2) (Ct[1 := x, 0 := y]) rk)
      else Ct)"
  by pat_completeness auto
termination
  by (relation "measure (\<lambda>(i, Ct, rk). 68 - i)") auto

declare Simon128192Encrypt_loop.simps [simp del]

definition Simon128192Encrypt :: "u64 list \<Rightarrow> u64 list \<Rightarrow> u64 list \<Rightarrow> u64 list" where
  "Simon128192Encrypt Pt Ct rk =
     (let Ct = Ct[0 := Pt ! 0]; Ct = Ct[1 := Pt ! 1];
          Ct = Simon128192Encrypt_loop 0 Ct rk;
          t = Ct ! 1; Ct = Ct[1 := Ct ! 0 XOR f64 (Ct ! 1) XOR rk ! 68]; Ct = Ct[0 := t]
      in Ct)"

text \<open>
  \<^verbatim>\<open>Simon128192Decrypt\<close>: the statement with \<^verbatim>\<open>rk[68]\<close> comes first, then 68 single
  rounds with \<open>i\<close> from 67 down to 0.
\<close>

function Simon128192Decrypt_loop :: "int \<Rightarrow> u64 list \<Rightarrow> u64 list \<Rightarrow> u64 list" where
  "Simon128192Decrypt_loop i Pt rk =
     (if i \<ge> 0 then
        (let t = Pt ! 0; Pt = Pt[0 := Pt ! 1 XOR f64 (Pt ! 0) XOR rk ! nat i]; Pt = Pt[1 := t]
         in Simon128192Decrypt_loop (i - 1) Pt rk)
      else Pt)"
  by pat_completeness auto
termination
  by (relation "measure (\<lambda>(i, Pt, rk). nat (i + 1))") auto

declare Simon128192Decrypt_loop.simps [simp del]

definition Simon128192Decrypt :: "u64 list \<Rightarrow> u64 list \<Rightarrow> u64 list \<Rightarrow> u64 list" where
  "Simon128192Decrypt Pt Ct rk =
     (let Pt = Pt[0 := Ct ! 0]; Pt = Pt[1 := Ct ! 1];
          t = Pt ! 0; Pt = Pt[0 := Pt ! 1 XOR f64 (Pt ! 0) XOR rk ! 68]; Pt = Pt[1 := t]
      in Simon128192Decrypt_loop 67 Pt rk)"

text \<open>
  \<^verbatim>\<open>Simon128256KeySchedule\<close>: the loop state is \<open>(i, A, B, C, D, z, rk)\<close> and one pass
  of the body advances \<open>i\<close> by 4.
\<close>

definition Simon128256KeySchedule_body ::
  "nat \<times> u64 \<times> u64 \<times> u64 \<times> u64 \<times> u64 \<times> u64 list
     \<Rightarrow> nat \<times> u64 \<times> u64 \<times> u64 \<times> u64 \<times> u64 \<times> u64 list" where
  "Simon128256KeySchedule_body = (\<lambda>(i, A, B, C, D, z, rk).
     let rk = rk[i := A]; i = i + 1;
         A = A XOR (c64 XOR (z AND 1) XOR ROTR64 D 3 XOR ROTR64 D 4 XOR B XOR ROTR64 B 1);
         z = drop_bit 1 z;
         rk = rk[i := B]; i = i + 1;
         B = B XOR (c64 XOR (z AND 1) XOR ROTR64 A 3 XOR ROTR64 A 4 XOR C XOR ROTR64 C 1);
         z = drop_bit 1 z;
         rk = rk[i := C]; i = i + 1;
         C = C XOR (c64 XOR (z AND 1) XOR ROTR64 B 3 XOR ROTR64 B 4 XOR D XOR ROTR64 D 1);
         z = drop_bit 1 z;
         rk = rk[i := D]; i = i + 1;
         D = D XOR (c64 XOR (z AND 1) XOR ROTR64 C 3 XOR ROTR64 C 4 XOR A XOR ROTR64 A 1);
         z = drop_bit 1 z
     in (i, A, B, C, D, z, rk))"

function Simon128256KeySchedule_loop ::
  "nat \<times> u64 \<times> u64 \<times> u64 \<times> u64 \<times> u64 \<times> u64 list
     \<Rightarrow> nat \<times> u64 \<times> u64 \<times> u64 \<times> u64 \<times> u64 \<times> u64 list" where
  "Simon128256KeySchedule_loop (i, A, B, C, D, z, rk) =
     (if i < 64 then
        Simon128256KeySchedule_loop (Simon128256KeySchedule_body (i, A, B, C, D, z, rk))
      else (i, A, B, C, D, z, rk))"
  by pat_completeness auto
termination
  by (relation "measure (\<lambda>(i, A, B, C, D, z, rk). 64 - i)")
     (auto simp: Simon128256KeySchedule_body_def Let_def)

declare Simon128256KeySchedule_loop.simps [simp del]

definition Simon128256KeySchedule :: "u64 list \<Rightarrow> u64 list \<Rightarrow> u64 list" where
  "Simon128256KeySchedule K rk =
     (case Simon128256KeySchedule_loop (0, K ! 0, K ! 1, K ! 2, K ! 3, z_Simon128256, rk) of
        (i, A, B, C, D, z, rk) \<Rightarrow>
          let rk = rk[64 := A];
              A = A XOR (c64 XOR 0 XOR ROTR64 D 3 XOR ROTR64 D 4 XOR B XOR ROTR64 B 1);
              rk = rk[65 := B];
              B = B XOR (c64 XOR 1 XOR ROTR64 A 3 XOR ROTR64 A 4 XOR C XOR ROTR64 C 1);
              rk = rk[66 := C];
              C = C XOR (c64 XOR 0 XOR ROTR64 B 3 XOR ROTR64 B 4 XOR D XOR ROTR64 D 1);
              rk = rk[67 := D];
              D = D XOR (c64 XOR 0 XOR ROTR64 C 3 XOR ROTR64 C 4 XOR A XOR ROTR64 A 1);
              rk = rk[68 := A]; rk = rk[69 := B]; rk = rk[70 := C]; rk = rk[71 := D]
          in rk)"

function Simon128256Encrypt_loop :: "nat \<Rightarrow> u64 list \<Rightarrow> u64 list \<Rightarrow> u64 list" where
  "Simon128256Encrypt_loop i Ct rk =
     (if i < 72 then
        (case R64x2 (Ct ! 1) (Ct ! 0) (rk ! i) (rk ! (i + 1)) of
           (x, y) \<Rightarrow> Simon128256Encrypt_loop (i + 2) (Ct[1 := x, 0 := y]) rk)
      else Ct)"
  by pat_completeness auto
termination
  by (relation "measure (\<lambda>(i, Ct, rk). 72 - i)") auto

declare Simon128256Encrypt_loop.simps [simp del]

definition Simon128256Encrypt :: "u64 list \<Rightarrow> u64 list \<Rightarrow> u64 list \<Rightarrow> u64 list" where
  "Simon128256Encrypt Pt Ct rk =
     (let Ct = Ct[0 := Pt ! 0]; Ct = Ct[1 := Pt ! 1]
      in Simon128256Encrypt_loop 0 Ct rk)"

function Simon128256Decrypt_loop :: "int \<Rightarrow> u64 list \<Rightarrow> u64 list \<Rightarrow> u64 list" where
  "Simon128256Decrypt_loop i Pt rk =
     (if i \<ge> 0 then
        (case R64x2 (Pt ! 0) (Pt ! 1) (rk ! nat i) (rk ! nat (i - 1)) of
           (x, y) \<Rightarrow> Simon128256Decrypt_loop (i - 2) (Pt[0 := x, 1 := y]) rk)
      else Pt)"
  by pat_completeness auto
termination
  by (relation "measure (\<lambda>(i, Pt, rk). nat (i + 1))") auto

declare Simon128256Decrypt_loop.simps [simp del]

definition Simon128256Decrypt :: "u64 list \<Rightarrow> u64 list \<Rightarrow> u64 list \<Rightarrow> u64 list" where
  "Simon128256Decrypt Pt Ct rk =
     (let Pt = Pt[0 := Ct ! 0]; Pt = Pt[1 := Ct ! 1]
      in Simon128256Decrypt_loop 71 Pt rk)"

section \<open>functions.h\<close>

text \<open>
  The four codec functions take the number of words or bytes from their caller, so the
  model checks every index against the arrays: \<open>None\<close> stands for the undefined
  behaviour of an access outside an array.
\<close>

function Words32ToBytes_loop :: "nat \<Rightarrow> nat \<Rightarrow> u32 list \<Rightarrow> u8 list \<Rightarrow> nat \<Rightarrow> u8 list option" where
  "Words32ToBytes_loop i j words bytes numwords =
     (if i < numwords then
        (if i < length words \<and> j + 3 < length bytes then
           Words32ToBytes_loop (i + 1) (j + 4) words
             (bytes[j := ucast (words ! i),
                    j + 1 := ucast (drop_bit 8 (words ! i)),
                    j + 2 := ucast (drop_bit 16 (words ! i)),
                    j + 3 := ucast (drop_bit 24 (words ! i))]) numwords
         else None)
      else Some bytes)"
  by pat_completeness auto
termination
  by (relation "measure (\<lambda>(i, j, words, bytes, numwords). numwords - i)") auto

declare Words32ToBytes_loop.simps [simp del]

definition Words32ToBytes :: "u32 list \<Rightarrow> u8 list \<Rightarrow> nat \<Rightarrow> u8 list option" where
  "Words32ToBytes words bytes numwords = Words32ToBytes_loop 0 0 words bytes numwords"

function Words64ToBytes_loop :: "nat \<Rightarrow> nat \<Rightarrow> u64 list \<Rightarrow> u8 list \<Rightarrow> nat \<Rightarrow> u8 list option" where
  "Words64ToBytes_loop i j words bytes numwords =
     (if i < numwords then
        (if i < length words \<and> j + 7 < length bytes then
           Words64ToBytes_loop (i + 1) (j + 8) words
             (bytes[j := ucast (words ! i),
                    j + 1 := ucast (drop_bit 8 (words ! i)),
                    j + 2 := ucast (drop_bit 16 (words ! i)),
                    j + 3 := ucast (drop_bit 24 (words ! i)),
                    j + 4 := ucast (drop_bit 32 (words ! i)),
                    j + 5 := ucast (drop_bit 40 (words ! i)),
                    j + 6 := ucast (drop_bit 48 (words ! i)),
                    j + 7 := ucast (drop_bit 56 (words ! i))]) numwords
         else None)
      else Some bytes)"
  by pat_completeness auto
termination
  by (relation "measure (\<lambda>(i, j, words, bytes, numwords). numwords - i)") auto

declare Words64ToBytes_loop.simps [simp del]

definition Words64ToBytes :: "u64 list \<Rightarrow> u8 list \<Rightarrow> nat \<Rightarrow> u8 list option" where
  "Words64ToBytes words bytes numwords = Words64ToBytes_loop 0 0 words bytes numwords"

function BytesToWords32_loop :: "nat \<Rightarrow> nat \<Rightarrow> u8 list \<Rightarrow> u32 list \<Rightarrow> nat \<Rightarrow> u32 list option" where
  "BytesToWords32_loop i j bytes words numbytes =
     (if i < numbytes div 4 then
        (if i < length words \<and> j + 3 < length bytes then
           BytesToWords32_loop (i + 1) (j + 4) bytes
             (words[i := ucast (bytes ! j) OR push_bit 8 (ucast (bytes ! (j + 1)))
                         OR push_bit 16 (ucast (bytes ! (j + 2)))
                         OR push_bit 24 (ucast (bytes ! (j + 3)))]) numbytes
         else None)
      else Some words)"
  by pat_completeness auto
termination
  by (relation "measure (\<lambda>(i, j, bytes, words, numbytes). numbytes div 4 - i)") auto

declare BytesToWords32_loop.simps [simp del]

definition BytesToWords32 :: "u8 list \<Rightarrow> u32 list \<Rightarrow> nat \<Rightarrow> u32 list option" where
  "BytesToWords32 bytes words numbytes = BytesToWords32_loop 0 0 bytes words numbytes"

function BytesToWords64_loop :: "nat \<Rightarrow> nat \<Rightarrow> u8 list \<Rightarrow> u64 list \<Rightarrow> nat \<Rightarrow> u64 list option" where
  "BytesToWords64_loop i j bytes words numbytes =
     (if i < numbytes div 8 then
        (if i < length words \<and> j + 7 < length bytes then
           BytesToWords64_loop (i + 1) (j + 8) bytes
             (words[i := ucast (bytes ! j) OR push_bit 8 (ucast (bytes ! (j + 1)))
                         OR push_bit 16 (ucast (bytes ! (j + 2)))
                         OR push_bit 24 (ucast (bytes ! (j + 3)))
                         OR push_bit 32 (ucast (bytes ! (j + 4)))
                         OR push_bit 40 (ucast (bytes ! (j + 5)))
                         OR push_bit 48 (ucast (bytes ! (j + 6)))
                         OR push_bit 56 (ucast (bytes ! (j + 7)))]) numbytes
         else None)
      else Some words)"
  by pat_completeness auto
termination
  by (relation "measure (\<lambda>(i, j, bytes, words, numbytes). numbytes div 8 - i)") auto

declare BytesToWords64_loop.simps [simp del]

definition BytesToWords64 :: "u8 list \<Rightarrow> u64 list \<Rightarrow> nat \<Rightarrow> u64 list option" where
  "BytesToWords64 bytes words numbytes = BytesToWords64_loop 0 0 bytes words numbytes"

section \<open>simon.c\<close>

text \<open>
  \<^verbatim>\<open>dpi_c_run_simon\<close> returns nothing: what it does is its two \<^verbatim>\<open>io_printf\<close> lines and
  the bytes it stores into the open array \<^verbatim>\<open>txt_o\<close>. The model returns both. An open
  array is the list of its bytes with \<^verbatim>\<open>svLow\<close> 0, \<^verbatim>\<open>svHigh\<close> one less than its length
  and \<^verbatim>\<open>svSize\<close> its length. A local array has no initialiser in the source, so its
  first contents are indeterminate: the record \<open>frame\<close> supplies them, one field for
  each local array.
\<close>

datatype log_entry = INFO nat nat string | FAILURE nat nat

record frame =
  txti_u8_0 :: "nat \<Rightarrow> u8"
  key_u8_0 :: "nat \<Rightarrow> u8"
  txto_u8_0 :: "nat \<Rightarrow> u8"
  txti_u32_0 :: "nat \<Rightarrow> u32"
  key_u32_0 :: "nat \<Rightarrow> u32"
  txto_u32_0 :: "nat \<Rightarrow> u32"
  rk_u32_0 :: "nat \<Rightarrow> u32"
  txti_u64_0 :: "nat \<Rightarrow> u64"
  key_u64_0 :: "nat \<Rightarrow> u64"
  txto_u64_0 :: "nat \<Rightarrow> u64"
  rk_u64_0 :: "nat \<Rightarrow> u64"

definition local_array :: "(nat \<Rightarrow> 'a) \<Rightarrow> nat \<Rightarrow> 'a list" where
  "local_array init n = map init [0..<n]"

text \<open>
  The loops 1a and 1b, \<^verbatim>\<open>for (i=svLow(a,1); i<(svHigh(a,1)+1); i++) dst[i] = a[i]\<close>:
  \<open>hi1\<close> is \<^verbatim>\<open>svHigh(a,1)+1\<close>, the length of the open array.
\<close>

function copy_in_loop :: "nat \<Rightarrow> nat \<Rightarrow> u8 list \<Rightarrow> u8 list \<Rightarrow> u8 list option" where
  "copy_in_loop i hi1 a dst =
     (if i < hi1 then
        (if i < length a \<and> i < length dst then copy_in_loop (i + 1) hi1 a (dst[i := a ! i])
         else None)
      else Some dst)"
  by pat_completeness auto
termination
  by (relation "measure (\<lambda>(i, hi1, a, dst). hi1 - i)") auto

declare copy_in_loop.simps [simp del]

text \<open>
  Loop 5, \<^verbatim>\<open>*(u8*)svGetArrElemPtr1(txt_o, i) = txto_u8[i]\<close> for the indices of
  \<^verbatim>\<open>txt_i\<close>.
\<close>

function copy_out_loop :: "nat \<Rightarrow> nat \<Rightarrow> u8 list \<Rightarrow> u8 list \<Rightarrow> u8 list option" where
  "copy_out_loop i hi1 txto_u8 txt_o =
     (if i < hi1 then
        (if i < length txto_u8 \<and> i < length txt_o then
           copy_out_loop (i + 1) hi1 txto_u8 (txt_o[i := txto_u8 ! i])
         else None)
      else Some txt_o)"
  by pat_completeness auto
termination
  by (relation "measure (\<lambda>(i, hi1, txto_u8, txt_o). hi1 - i)") auto

declare copy_out_loop.simps [simp del]

definition dpi_c_run_simon ::
  "frame \<Rightarrow> int \<Rightarrow> u8 list \<Rightarrow> u8 list \<Rightarrow> u8 list \<Rightarrow> (log_entry list \<times> u8 list) option" where
  "dpi_c_run_simon fr crypto_mode txt_i key_i txt_o =
     (let sz_txt = length txt_i * 8;
          sz_key = length key_i * 8;
          log = [INFO sz_txt sz_key
                  (if crypto_mode = MODE_ENC then ''encryption'' else ''decryption'')];
          txti_u8 = local_array (txti_u8_0 fr) (sz_txt div 8);
          key_u8 = local_array (key_u8_0 fr) (sz_key div 8);
          txto_u8 = local_array (txto_u8_0 fr) (sz_txt div 8)
      in do {
        txti_u8 \<leftarrow> copy_in_loop 0 (length txt_i) txt_i txti_u8;
        key_u8 \<leftarrow> copy_in_loop 0 (length key_i) key_i key_u8;
        (log, txto_u8) \<leftarrow>
          (if sz_txt = 64 then
             let txti_u32 = local_array (txti_u32_0 fr) (sz_txt div 32);
                 key_u32 = local_array (key_u32_0 fr) (sz_key div 32);
                 txto_u32 = local_array (txto_u32_0 fr) (sz_txt div 32)
             in do {
               txti_u32 \<leftarrow> BytesToWords32 txti_u8 txti_u32 (sz_txt div 8);
               key_u32 \<leftarrow> BytesToWords32 key_u8 key_u32 (sz_key div 8);
               (log, txto_u32) \<leftarrow> Some
                 (if sz_key = 96 then
                    let rk = local_array (rk_u32_0 fr) N_ROUNDS__64_96;
                        rk = Simon6496KeySchedule key_u32 rk
                    in if crypto_mode = MODE_ENC
                       then (log, Simon6496Encrypt txti_u32 txto_u32 rk)
                       else (log, Simon6496Decrypt txto_u32 txti_u32 rk)
                  else if sz_key = 128 then
                    let rk = local_array (rk_u32_0 fr) N_ROUNDS__64_128;
                        rk = Simon64128KeySchedule key_u32 rk
                    in if crypto_mode = MODE_ENC
                       then (log, Simon64128Encrypt txti_u32 txto_u32 rk)
                       else (log, Simon64128Decrypt txto_u32 txti_u32 rk)
                  else (log @ [FAILURE sz_txt sz_key], txto_u32));
               txto_u8 \<leftarrow> Words32ToBytes txto_u32 txto_u8 (sz_txt div 8);
               Some (log, txto_u8)
             }
           else if sz_txt = 128 then
             let txti_u64 = local_array (txti_u64_0 fr) (sz_txt div 64);
                 key_u64 = local_array (key_u64_0 fr) (sz_key div 64);
                 txto_u64 = local_array (txto_u64_0 fr) (sz_txt div 64)
             in do {
               txti_u64 \<leftarrow> BytesToWords64 txti_u8 txti_u64 (sz_txt div 8);
               key_u64 \<leftarrow> BytesToWords64 key_u8 key_u64 (sz_key div 8);
               (log, txto_u64) \<leftarrow> Some
                 (if sz_key = 128 then
                    let rk = local_array (rk_u64_0 fr) N_ROUNDS__128_128;
                        rk = Simon128128KeySchedule key_u64 rk
                    in if crypto_mode = MODE_ENC
                       then (log, Simon128128Encrypt txti_u64 txto_u64 rk)
                       else (log, Simon128128Decrypt txto_u64 txti_u64 rk)
                  else if sz_key = 192 then
                    let rk = local_array (rk_u64_0 fr) N_ROUNDS__128_192;
                        rk = Simon128192KeySchedule key_u64 rk
                    in if crypto_mode = MODE_ENC
                       then (log, Simon128192Encrypt txti_u64 txto_u64 rk)
                       else (log, Simon128192Decrypt txto_u64 txti_u64 rk)
                  else if sz_key = 256 then
                    let rk = local_array (rk_u64_0 fr) N_ROUNDS__128_256;
                        rk = Simon128256KeySchedule key_u64 rk
                    in if crypto_mode = MODE_ENC
                       then (log, Simon128256Encrypt txti_u64 txto_u64 rk)
                       else (log, Simon128256Decrypt txto_u64 txti_u64 rk)
                  else (log @ [FAILURE sz_txt sz_key], txto_u64));
               txto_u8 \<leftarrow> Words64ToBytes txto_u64 txto_u8 (sz_txt div 8);
               Some (log, txto_u8)
             }
           else Some (log @ [FAILURE sz_txt sz_key], txto_u8));
        txt_o \<leftarrow> copy_out_loop 0 (length txt_i) txto_u8 txt_o;
        Some (log, txt_o)
      })"

section \<open>Recurrences used in the proofs\<close>

text \<open>
  These functions are not in the source. \<open>seq2\<close>, \<open>seq3\<close> and \<open>seq4\<close> unfold a
  recurrence over the last two, three or four values; the \<open>g\<close> functions are the right-hand
  sides of the assignments in the key schedules, with the bit that entry \<open>n\<close> mixes in; the
  \<open>b\<close> functions give that bit for the 64-bit schedules, whose last updates take a literal
  bit. The key schedules are shown below to write exactly these sequences.
\<close>

fun seq2 :: "(nat \<Rightarrow> 'a \<Rightarrow> 'a \<Rightarrow> 'a) \<Rightarrow> 'a \<Rightarrow> 'a \<Rightarrow> nat \<Rightarrow> 'a" where
  "seq2 g a b 0 = a"
| "seq2 g a b (Suc 0) = b"
| "seq2 g a b (Suc (Suc n)) = g n (seq2 g a b n) (seq2 g a b (Suc n))"

fun seq3 :: "(nat \<Rightarrow> 'a \<Rightarrow> 'a \<Rightarrow> 'a \<Rightarrow> 'a) \<Rightarrow> 'a \<Rightarrow> 'a \<Rightarrow> 'a \<Rightarrow> nat \<Rightarrow> 'a" where
  "seq3 g a b c 0 = a"
| "seq3 g a b c (Suc 0) = b"
| "seq3 g a b c (Suc (Suc 0)) = c"
| "seq3 g a b c (Suc (Suc (Suc n))) =
     g n (seq3 g a b c n) (seq3 g a b c (Suc n)) (seq3 g a b c (Suc (Suc n)))"

fun seq4 ::
  "(nat \<Rightarrow> 'a \<Rightarrow> 'a \<Rightarrow> 'a \<Rightarrow> 'a \<Rightarrow> 'a) \<Rightarrow> 'a \<Rightarrow> 'a \<Rightarrow> 'a \<Rightarrow> 'a \<Rightarrow> nat \<Rightarrow> 'a" where
  "seq4 g a b c d 0 = a"
| "seq4 g a b c d (Suc 0) = b"
| "seq4 g a b c d (Suc (Suc 0)) = c"
| "seq4 g a b c d (Suc (Suc (Suc 0))) = d"
| "seq4 g a b c d (Suc (Suc (Suc (Suc n)))) =
     g n (seq4 g a b c d n) (seq4 g a b c d (Suc n)) (seq4 g a b c d (Suc (Suc n)))
       (seq4 g a b c d (Suc (Suc (Suc n))))"

definition g6496 :: "u64 \<Rightarrow> nat \<Rightarrow> u32 \<Rightarrow> u32 \<Rightarrow> u32 \<Rightarrow> u32" where
  "g6496 z n x0 x1 x2 =
     c32 XOR ucast (drop_bit n z AND 1) XOR x0 XOR ROTR32 x2 3 XOR ROTR32 x2 4"

definition g64128 :: "u64 \<Rightarrow> nat \<Rightarrow> u32 \<Rightarrow> u32 \<Rightarrow> u32 \<Rightarrow> u32 \<Rightarrow> u32" where
  "g64128 z n x0 x1 x2 x3 =
     c32 XOR ucast (drop_bit n z AND 1) XOR x0 XOR ROTR32 x3 3 XOR x1 XOR ROTR32 x3 4
       XOR ROTR32 x1 1"

definition b128128 :: "nat \<Rightarrow> u64" where
  "b128128 n = (if n < 64 then drop_bit n z_Simon128128 AND 1 else if n = 64 then 1 else 0)"

definition g128128 :: "nat \<Rightarrow> u64 \<Rightarrow> u64 \<Rightarrow> u64" where
  "g128128 n x0 x1 = x0 XOR (c64 XOR b128128 n XOR ROTR64 x1 3 XOR ROTR64 x1 4)"

definition b128192 :: "nat \<Rightarrow> u64" where
  "b128192 n = (if n < 63 then drop_bit n z_Simon128192 AND 1 else if n = 64 then 0 else 1)"

definition g128192 :: "nat \<Rightarrow> u64 \<Rightarrow> u64 \<Rightarrow> u64 \<Rightarrow> u64" where
  "g128192 n x0 x1 x2 = x0 XOR (c64 XOR b128192 n XOR ROTR64 x2 3 XOR ROTR64 x2 4)"

definition b128256 :: "nat \<Rightarrow> u64" where
  "b128256 n = (if n < 64 then drop_bit n z_Simon128256 AND 1 else if n = 65 then 1 else 0)"

definition g128256 :: "nat \<Rightarrow> u64 \<Rightarrow> u64 \<Rightarrow> u64 \<Rightarrow> u64 \<Rightarrow> u64" where
  "g128256 n x0 x1 x2 x3 =
     x0 XOR (c64 XOR b128256 n XOR ROTR64 x3 3 XOR ROTR64 x3 4 XOR x1 XOR ROTR64 x1 1)"

section \<open>Rotations and the round function\<close>

lemma mod_wrap: "r \<le> n \<Longrightarrow> n < L \<Longrightarrow> (n + (L - r)) mod L = n - (r::nat)"
proof -
  assume a: "r \<le> n" "n < L"
  then have "n + (L - r) = (n - r) + L" by arith
  then have "(n + (L - r)) mod L = (n - r) mod L" by (simp only: mod_add_self2)
  then show ?thesis using a by simp
qed

lemma rotl_bits:
  fixes x :: "'a::len word"
  assumes "0 < r" "r < LENGTH('a)"
  shows "push_bit r x OR drop_bit (LENGTH('a) - r) x = word_rotl r x"
proof (rule bit_word_eqI)
  fix n assume n: "n < LENGTH('a)"
  show "bit (push_bit r x OR drop_bit (LENGTH('a) - r) x) n = bit (word_rotl r x) n"
  proof (cases "r \<le> n")
    case True
    have m: "(n + (LENGTH('a) - r)) mod LENGTH('a) = n - r" using True n by (rule mod_wrap)
    have "\<not> bit x (LENGTH('a) - r + n)" using True assms by (auto dest: bit_imp_le_length)
    then show ?thesis using True n assms m
      by (simp add: bit_or_iff bit_push_bit_iff bit_drop_bit_eq bit_word_rotl_iff)
  next
    case False
    then have m: "(n + (LENGTH('a) - r)) mod LENGTH('a) = LENGTH('a) - r + n"
      using n assms by simp
    show ?thesis using False n assms m
      by (simp add: bit_or_iff bit_push_bit_iff bit_drop_bit_eq bit_word_rotl_iff)
  qed
qed

lemma ROTL32_rotl: "0 < r \<Longrightarrow> r < 32 \<Longrightarrow> ROTL32 x r = word_rotl r x"
  using rotl_bits [of r x] by (simp add: ROTL32_def)

lemma ROTL64_rotl: "0 < r \<Longrightarrow> r < 64 \<Longrightarrow> ROTL64 x r = word_rotl r x"
  using rotl_bits [of r x] by (simp add: ROTL64_def)

text \<open>
  C9. For every word \<open>x\<close> of either width the round function is
  \<open>(rotl x 1 AND rotl x 8) XOR rotl x 2\<close>: the macros \<^verbatim>\<open>f32\<close> and \<^verbatim>\<open>f64\<close> use the
  rotation amounts 1, 8 and 2, and their shifts are the rotation of a 32-bit and of a
  64-bit word (\<^const>\<open>word_rotl\<close> at the word's own width).
\<close>

theorem C9_round_function:
  "f32 x = (word_rotl 1 x AND word_rotl 8 x) XOR word_rotl 2 x
   \<and> f64 y = (word_rotl 1 y AND word_rotl 8 y) XOR word_rotl 2 y"
  by (simp add: f32_def f64_def ROTL32_rotl ROTL64_rotl)

section \<open>Encryption followed by decryption\<close>

lemma list2E:
  assumes "length xs = 2"
  obtains a b where "xs = [a, b]"
proof -
  from assms obtain a r where 1: "xs = a # r" by (cases xs) auto
  with assms obtain b r' where 2: "r = b # r'" by (cases r) auto
  with 1 assms have "r' = []" by simp
  with 1 2 that show ?thesis by simp
qed

lemma R32x2_inv: "R32x2 x y k1 k2 = (x', y') \<Longrightarrow> R32x2 y' x' k2 k1 = (y, x)"
  by (auto simp: R32x2_def Let_def xor.assoc)

lemma R64x2_inv: "R64x2 x y k1 k2 = (x', y') \<Longrightarrow> R64x2 y' x' k2 k1 = (y, x)"
  by (auto simp: R64x2_def Let_def xor.assoc)

lemma enc_len_6496: "length Ct = 2 \<Longrightarrow> length (Simon6496Encrypt_loop i Ct rk) = 2"
proof (induction i Ct rk rule: Simon6496Encrypt_loop.induct)
  case (1 i Ct rk)
  show ?case
  proof (cases "i < 42")
    case False
    then show ?thesis using 1(2) by (simp add: Simon6496Encrypt_loop.simps)
  next
    case True
    obtain x y where R: "R32x2 (Ct ! 1) (Ct ! 0) (rk ! i) (rk ! (i + 1)) = (x, y)" by fastforce
    have "length (Simon6496Encrypt_loop (i + 2) (Ct[1 := x, 0 := y]) rk) = 2"
      using True R 1(2) by (intro 1(1) [of x y]) simp_all
    then show ?thesis using True R by (subst Simon6496Encrypt_loop.simps) simp
  qed
qed

lemma enc_dec_6496:
  assumes "length Ct = 2"
  shows "even i \<Longrightarrow> i \<le> 42 \<Longrightarrow>
    Simon6496Decrypt_loop 41 (Simon6496Encrypt_loop i Ct rk) rk = Simon6496Decrypt_loop (int i - 1) Ct rk"
  using assms
proof (induction i Ct rk rule: Simon6496Encrypt_loop.induct)
  case (1 i Ct rk)
  show ?case
  proof (cases "i < 42")
    case False
    with 1(3) have "i = 42" by simp
    then show ?thesis by (simp add: Simon6496Encrypt_loop.simps)
  next
    case True
    have i2: "i + 2 \<le> 42" "even (i + 2)" using True 1(2) by presburger+
    obtain a b where Ct: "Ct = [a, b]" using 1(4) by (rule list2E)
    obtain x y where R: "R32x2 b a (rk ! i) (rk ! (i + 1)) = (x, y)" by fastforce
    have "Simon6496Decrypt_loop 41 (Simon6496Encrypt_loop i Ct rk) rk
        = Simon6496Decrypt_loop (int (i + 2) - 1) [y, x] rk"
      using 1(1) [of x y] True R i2
      by (subst Simon6496Encrypt_loop.simps) (simp add: Ct)
    also have "\<dots> = Simon6496Decrypt_loop (int i - 1) Ct rk"
      using R32x2_inv [OF R]
      by (subst Simon6496Decrypt_loop.simps) (simp add: Ct nat_add_distrib)
    finally show ?thesis .
  qed
qed

lemma roundtrip_6496:
  assumes "length Pt = 2" "length Ct = 2" "length Pt' = 2"
  shows "Simon6496Decrypt Pt' (Simon6496Encrypt Pt Ct rk) rk = Pt"
proof -
  obtain p0 p1 where Pt: "Pt = [p0, p1]" using assms(1) by (rule list2E)
  obtain c0 c1 where Ct: "Ct = [c0, c1]" using assms(2) by (rule list2E)
  obtain q0 q1 where Pt': "Pt' = [q0, q1]" using assms(3) by (rule list2E)
  define E where "E = Simon6496Encrypt_loop 0 Pt rk"
  have len: "length E = 2" unfolding E_def using assms(1) by (rule enc_len_6496)
  then obtain e0 e1 where E: "E = [e0, e1]" by (rule list2E)
  have stop: "Simon6496Decrypt_loop (- 1) Pt rk = Pt"
    by (subst Simon6496Decrypt_loop.simps) simp
  have "Simon6496Decrypt_loop 41 E rk = Simon6496Decrypt_loop (int 0 - 1) Pt rk"
    unfolding E_def using assms(1) by (intro enc_dec_6496) simp_all
  then have "Simon6496Decrypt_loop 41 E rk = Pt"
    using stop by simp
  moreover have "Simon6496Encrypt Pt Ct rk = E"
    by (simp add: Simon6496Encrypt_def E_def Pt Ct)
  ultimately show ?thesis
    by (simp add: Simon6496Decrypt_def E Pt')
qed

lemma enc_len_64128: "length Ct = 2 \<Longrightarrow> length (Simon64128Encrypt_loop i Ct rk) = 2"
proof (induction i Ct rk rule: Simon64128Encrypt_loop.induct)
  case (1 i Ct rk)
  show ?case
  proof (cases "i < 44")
    case False
    then show ?thesis using 1(2) by (simp add: Simon64128Encrypt_loop.simps)
  next
    case True
    obtain x y where R: "R32x2 (Ct ! 1) (Ct ! 0) (rk ! i) (rk ! (i + 1)) = (x, y)" by fastforce
    have "length (Simon64128Encrypt_loop (i + 2) (Ct[1 := x, 0 := y]) rk) = 2"
      using True R 1(2) by (intro 1(1) [of x y]) simp_all
    then show ?thesis using True R by (subst Simon64128Encrypt_loop.simps) simp
  qed
qed

lemma enc_dec_64128:
  assumes "length Ct = 2"
  shows "even i \<Longrightarrow> i \<le> 44 \<Longrightarrow>
    Simon64128Decrypt_loop 43 (Simon64128Encrypt_loop i Ct rk) rk = Simon64128Decrypt_loop (int i - 1) Ct rk"
  using assms
proof (induction i Ct rk rule: Simon64128Encrypt_loop.induct)
  case (1 i Ct rk)
  show ?case
  proof (cases "i < 44")
    case False
    with 1(3) have "i = 44" by simp
    then show ?thesis by (simp add: Simon64128Encrypt_loop.simps)
  next
    case True
    have i2: "i + 2 \<le> 44" "even (i + 2)" using True 1(2) by presburger+
    obtain a b where Ct: "Ct = [a, b]" using 1(4) by (rule list2E)
    obtain x y where R: "R32x2 b a (rk ! i) (rk ! (i + 1)) = (x, y)" by fastforce
    have "Simon64128Decrypt_loop 43 (Simon64128Encrypt_loop i Ct rk) rk
        = Simon64128Decrypt_loop (int (i + 2) - 1) [y, x] rk"
      using 1(1) [of x y] True R i2
      by (subst Simon64128Encrypt_loop.simps) (simp add: Ct)
    also have "\<dots> = Simon64128Decrypt_loop (int i - 1) Ct rk"
      using R32x2_inv [OF R]
      by (subst Simon64128Decrypt_loop.simps) (simp add: Ct nat_add_distrib)
    finally show ?thesis .
  qed
qed

lemma roundtrip_64128:
  assumes "length Pt = 2" "length Ct = 2" "length Pt' = 2"
  shows "Simon64128Decrypt Pt' (Simon64128Encrypt Pt Ct rk) rk = Pt"
proof -
  obtain p0 p1 where Pt: "Pt = [p0, p1]" using assms(1) by (rule list2E)
  obtain c0 c1 where Ct: "Ct = [c0, c1]" using assms(2) by (rule list2E)
  obtain q0 q1 where Pt': "Pt' = [q0, q1]" using assms(3) by (rule list2E)
  define E where "E = Simon64128Encrypt_loop 0 Pt rk"
  have len: "length E = 2" unfolding E_def using assms(1) by (rule enc_len_64128)
  then obtain e0 e1 where E: "E = [e0, e1]" by (rule list2E)
  have stop: "Simon64128Decrypt_loop (- 1) Pt rk = Pt"
    by (subst Simon64128Decrypt_loop.simps) simp
  have "Simon64128Decrypt_loop 43 E rk = Simon64128Decrypt_loop (int 0 - 1) Pt rk"
    unfolding E_def using assms(1) by (intro enc_dec_64128) simp_all
  then have "Simon64128Decrypt_loop 43 E rk = Pt"
    using stop by simp
  moreover have "Simon64128Encrypt Pt Ct rk = E"
    by (simp add: Simon64128Encrypt_def E_def Pt Ct)
  ultimately show ?thesis
    by (simp add: Simon64128Decrypt_def E Pt')
qed

lemma enc_len_128128: "length Ct = 2 \<Longrightarrow> length (Simon128128Encrypt_loop i Ct rk) = 2"
proof (induction i Ct rk rule: Simon128128Encrypt_loop.induct)
  case (1 i Ct rk)
  show ?case
  proof (cases "i < 68")
    case False
    then show ?thesis using 1(2) by (simp add: Simon128128Encrypt_loop.simps)
  next
    case True
    obtain x y where R: "R64x2 (Ct ! 1) (Ct ! 0) (rk ! i) (rk ! (i + 1)) = (x, y)" by fastforce
    have "length (Simon128128Encrypt_loop (i + 2) (Ct[1 := x, 0 := y]) rk) = 2"
      using True R 1(2) by (intro 1(1) [of x y]) simp_all
    then show ?thesis using True R by (subst Simon128128Encrypt_loop.simps) simp
  qed
qed

lemma enc_dec_128128:
  assumes "length Ct = 2"
  shows "even i \<Longrightarrow> i \<le> 68 \<Longrightarrow>
    Simon128128Decrypt_loop 67 (Simon128128Encrypt_loop i Ct rk) rk = Simon128128Decrypt_loop (int i - 1) Ct rk"
  using assms
proof (induction i Ct rk rule: Simon128128Encrypt_loop.induct)
  case (1 i Ct rk)
  show ?case
  proof (cases "i < 68")
    case False
    with 1(3) have "i = 68" by simp
    then show ?thesis by (simp add: Simon128128Encrypt_loop.simps)
  next
    case True
    have i2: "i + 2 \<le> 68" "even (i + 2)" using True 1(2) by presburger+
    obtain a b where Ct: "Ct = [a, b]" using 1(4) by (rule list2E)
    obtain x y where R: "R64x2 b a (rk ! i) (rk ! (i + 1)) = (x, y)" by fastforce
    have "Simon128128Decrypt_loop 67 (Simon128128Encrypt_loop i Ct rk) rk
        = Simon128128Decrypt_loop (int (i + 2) - 1) [y, x] rk"
      using 1(1) [of x y] True R i2
      by (subst Simon128128Encrypt_loop.simps) (simp add: Ct)
    also have "\<dots> = Simon128128Decrypt_loop (int i - 1) Ct rk"
      using R64x2_inv [OF R]
      by (subst Simon128128Decrypt_loop.simps) (simp add: Ct nat_add_distrib)
    finally show ?thesis .
  qed
qed

lemma roundtrip_128128:
  assumes "length Pt = 2" "length Ct = 2" "length Pt' = 2"
  shows "Simon128128Decrypt Pt' (Simon128128Encrypt Pt Ct rk) rk = Pt"
proof -
  obtain p0 p1 where Pt: "Pt = [p0, p1]" using assms(1) by (rule list2E)
  obtain c0 c1 where Ct: "Ct = [c0, c1]" using assms(2) by (rule list2E)
  obtain q0 q1 where Pt': "Pt' = [q0, q1]" using assms(3) by (rule list2E)
  define E where "E = Simon128128Encrypt_loop 0 Pt rk"
  have len: "length E = 2" unfolding E_def using assms(1) by (rule enc_len_128128)
  then obtain e0 e1 where E: "E = [e0, e1]" by (rule list2E)
  have stop: "Simon128128Decrypt_loop (- 1) Pt rk = Pt"
    by (subst Simon128128Decrypt_loop.simps) simp
  have "Simon128128Decrypt_loop 67 E rk = Simon128128Decrypt_loop (int 0 - 1) Pt rk"
    unfolding E_def using assms(1) by (intro enc_dec_128128) simp_all
  then have "Simon128128Decrypt_loop 67 E rk = Pt"
    using stop by simp
  moreover have "Simon128128Encrypt Pt Ct rk = E"
    by (simp add: Simon128128Encrypt_def E_def Pt Ct)
  ultimately show ?thesis
    by (simp add: Simon128128Decrypt_def E Pt')
qed

lemma enc_len_128256: "length Ct = 2 \<Longrightarrow> length (Simon128256Encrypt_loop i Ct rk) = 2"
proof (induction i Ct rk rule: Simon128256Encrypt_loop.induct)
  case (1 i Ct rk)
  show ?case
  proof (cases "i < 72")
    case False
    then show ?thesis using 1(2) by (simp add: Simon128256Encrypt_loop.simps)
  next
    case True
    obtain x y where R: "R64x2 (Ct ! 1) (Ct ! 0) (rk ! i) (rk ! (i + 1)) = (x, y)" by fastforce
    have "length (Simon128256Encrypt_loop (i + 2) (Ct[1 := x, 0 := y]) rk) = 2"
      using True R 1(2) by (intro 1(1) [of x y]) simp_all
    then show ?thesis using True R by (subst Simon128256Encrypt_loop.simps) simp
  qed
qed

lemma enc_dec_128256:
  assumes "length Ct = 2"
  shows "even i \<Longrightarrow> i \<le> 72 \<Longrightarrow>
    Simon128256Decrypt_loop 71 (Simon128256Encrypt_loop i Ct rk) rk = Simon128256Decrypt_loop (int i - 1) Ct rk"
  using assms
proof (induction i Ct rk rule: Simon128256Encrypt_loop.induct)
  case (1 i Ct rk)
  show ?case
  proof (cases "i < 72")
    case False
    with 1(3) have "i = 72" by simp
    then show ?thesis by (simp add: Simon128256Encrypt_loop.simps)
  next
    case True
    have i2: "i + 2 \<le> 72" "even (i + 2)" using True 1(2) by presburger+
    obtain a b where Ct: "Ct = [a, b]" using 1(4) by (rule list2E)
    obtain x y where R: "R64x2 b a (rk ! i) (rk ! (i + 1)) = (x, y)" by fastforce
    have "Simon128256Decrypt_loop 71 (Simon128256Encrypt_loop i Ct rk) rk
        = Simon128256Decrypt_loop (int (i + 2) - 1) [y, x] rk"
      using 1(1) [of x y] True R i2
      by (subst Simon128256Encrypt_loop.simps) (simp add: Ct)
    also have "\<dots> = Simon128256Decrypt_loop (int i - 1) Ct rk"
      using R64x2_inv [OF R]
      by (subst Simon128256Decrypt_loop.simps) (simp add: Ct nat_add_distrib)
    finally show ?thesis .
  qed
qed

lemma roundtrip_128256:
  assumes "length Pt = 2" "length Ct = 2" "length Pt' = 2"
  shows "Simon128256Decrypt Pt' (Simon128256Encrypt Pt Ct rk) rk = Pt"
proof -
  obtain p0 p1 where Pt: "Pt = [p0, p1]" using assms(1) by (rule list2E)
  obtain c0 c1 where Ct: "Ct = [c0, c1]" using assms(2) by (rule list2E)
  obtain q0 q1 where Pt': "Pt' = [q0, q1]" using assms(3) by (rule list2E)
  define E where "E = Simon128256Encrypt_loop 0 Pt rk"
  have len: "length E = 2" unfolding E_def using assms(1) by (rule enc_len_128256)
  then obtain e0 e1 where E: "E = [e0, e1]" by (rule list2E)
  have stop: "Simon128256Decrypt_loop (- 1) Pt rk = Pt"
    by (subst Simon128256Decrypt_loop.simps) simp
  have "Simon128256Decrypt_loop 71 E rk = Simon128256Decrypt_loop (int 0 - 1) Pt rk"
    unfolding E_def using assms(1) by (intro enc_dec_128256) simp_all
  then have "Simon128256Decrypt_loop 71 E rk = Pt"
    using stop by simp
  moreover have "Simon128256Encrypt Pt Ct rk = E"
    by (simp add: Simon128256Encrypt_def E_def Pt Ct)
  ultimately show ?thesis
    by (simp add: Simon128256Decrypt_def E Pt')
qed

lemma enc_len_128192: "length Ct = 2 \<Longrightarrow> length (Simon128192Encrypt_loop i Ct rk) = 2"
proof (induction i Ct rk rule: Simon128192Encrypt_loop.induct)
  case (1 i Ct rk)
  show ?case
  proof (cases "i < 68")
    case False
    then show ?thesis using 1(2) by (simp add: Simon128192Encrypt_loop.simps)
  next
    case True
    obtain x y where R: "R64x2 (Ct ! 1) (Ct ! 0) (rk ! i) (rk ! (i + 1)) = (x, y)" by fastforce
    have "length (Simon128192Encrypt_loop (i + 2) (Ct[1 := x, 0 := y]) rk) = 2"
      using True R 1(2) by (intro 1(1) [of x y]) simp_all
    then show ?thesis using True R by (subst Simon128192Encrypt_loop.simps) simp
  qed
qed

lemma dec_step2_128192:
  assumes "0 \<le> i" "R64x2 a b (rk ! nat (i + 1)) (rk ! nat i) = (x, y)"
  shows "Simon128192Decrypt_loop (i + 1) [a, b] rk = Simon128192Decrypt_loop (i - 1) [x, y] rk"
proof -
  have y: "y = b XOR f64 a XOR rk ! nat (i + 1)" and x: "x = a XOR f64 y XOR rk ! nat i"
    using assms(2) by (auto simp: R64x2_def Let_def xor.assoc)
  have "Simon128192Decrypt_loop (i + 1) [a, b] rk = Simon128192Decrypt_loop i [y, a] rk"
    using assms(1) by (subst Simon128192Decrypt_loop.simps) (simp add: Let_def y)
  also have "\<dots> = Simon128192Decrypt_loop (i - 1) [x, y] rk"
    using assms(1) by (subst Simon128192Decrypt_loop.simps) (simp add: Let_def x)
  finally show ?thesis .
qed

lemma enc_dec_128192:
  assumes "length Ct = 2"
  shows "even i \<Longrightarrow> i \<le> 68 \<Longrightarrow>
    Simon128192Decrypt_loop 67 (Simon128192Encrypt_loop i Ct rk) rk = Simon128192Decrypt_loop (int i - 1) Ct rk"
  using assms
proof (induction i Ct rk rule: Simon128192Encrypt_loop.induct)
  case (1 i Ct rk)
  show ?case
  proof (cases "i < 68")
    case False
    with 1(3) have "i = 68" by simp
    then show ?thesis by (simp add: Simon128192Encrypt_loop.simps)
  next
    case True
    have i2: "i + 2 \<le> 68" "even (i + 2)" using True 1(2) by presburger+
    obtain a b where Ct: "Ct = [a, b]" using 1(4) by (rule list2E)
    obtain x y where R: "R64x2 b a (rk ! i) (rk ! (i + 1)) = (x, y)" by fastforce
    have R': "R64x2 y x (rk ! nat (int i + 1)) (rk ! nat (int i)) = (a, b)"
      using R64x2_inv [OF R] by (simp add: nat_add_distrib)
    have "Simon128192Decrypt_loop 67 (Simon128192Encrypt_loop i Ct rk) rk
        = Simon128192Decrypt_loop (int (i + 2) - 1) [y, x] rk"
      using 1(1) [of x y] True R i2
      by (subst Simon128192Encrypt_loop.simps) (simp add: Ct)
    also have "\<dots> = Simon128192Decrypt_loop (int i + 1) [y, x] rk" by (simp add: add.commute)
    also have "\<dots> = Simon128192Decrypt_loop (int i - 1) [a, b] rk"
      by (rule dec_step2_128192 [OF _ R']) simp
    finally show ?thesis by (simp add: Ct)
  qed
qed

lemma xor_twice: "(a XOR b XOR c) XOR b XOR c = (a :: 'a :: len word)"
  by (simp add: xor.assoc xor.commute xor.left_commute)

lemma roundtrip_128192:
  assumes "length Pt = 2" "length Ct = 2" "length Pt' = 2"
  shows "Simon128192Decrypt Pt' (Simon128192Encrypt Pt Ct rk) rk = Pt"
proof -
  obtain p0 p1 where Pt: "Pt = [p0, p1]" using assms(1) by (rule list2E)
  obtain c0 c1 where Ct: "Ct = [c0, c1]" using assms(2) by (rule list2E)
  obtain q0 q1 where Pt': "Pt' = [q0, q1]" using assms(3) by (rule list2E)
  define E where "E = Simon128192Encrypt_loop 0 Pt rk"
  have len: "length E = 2" unfolding E_def using assms(1) by (rule enc_len_128192)
  then obtain e0 e1 where E: "E = [e0, e1]" by (rule list2E)
  have stop: "Simon128192Decrypt_loop (- 1) Pt rk = Pt"
    by (subst Simon128192Decrypt_loop.simps) simp
  have "Simon128192Decrypt_loop 67 E rk = Simon128192Decrypt_loop (int 0 - 1) Pt rk"
    unfolding E_def using assms(1) by (intro enc_dec_128192) simp_all
  then have D: "Simon128192Decrypt_loop 67 [e0, e1] rk = Pt"
    using stop by (simp add: E)
  have "Simon128192Encrypt_loop 0 [p0, p1] rk = [e0, e1]"
    using E by (simp add: E_def Pt)
  then have "Simon128192Encrypt Pt Ct rk = [e1, e0 XOR f64 e1 XOR rk ! 68]"
    by (simp add: Simon128192Encrypt_def Pt Ct Let_def)
  then show ?thesis
    using D by (simp add: Simon128192Decrypt_def Pt' Let_def xor_twice)
qed

text \<open>
  C1. For each of the five variants, every block \<open>Pt\<close> of 2 words and every key of the
  variant's word count: decrypting, under the schedule expanded from the key, the result of
  encrypting \<open>Pt\<close> under that schedule gives \<open>Pt\<close> back. The arrays have the sizes of
  the caller; the first contents of the schedule array and of the two output arrays are
  arbitrary.
\<close>

theorem C1_round_trip:
  "(length Ka = 3 \<and> length rka = 42 \<and> length Pa = 2 \<and> length Ca = 2 \<and> length Qa = 2 \<longrightarrow>
      Simon6496Decrypt Qa (Simon6496Encrypt Pa Ca (Simon6496KeySchedule Ka rka))
        (Simon6496KeySchedule Ka rka) = Pa)
   \<and> (length Kb = 4 \<and> length rkb = 44 \<and> length Pb = 2 \<and> length Cb = 2 \<and> length Qb = 2 \<longrightarrow>
      Simon64128Decrypt Qb (Simon64128Encrypt Pb Cb (Simon64128KeySchedule Kb rkb))
        (Simon64128KeySchedule Kb rkb) = Pb)
   \<and> (length Kc = 2 \<and> length rkc = 68 \<and> length Pc = 2 \<and> length Cc = 2 \<and> length Qc = 2 \<longrightarrow>
      Simon128128Decrypt Qc (Simon128128Encrypt Pc Cc (Simon128128KeySchedule Kc rkc))
        (Simon128128KeySchedule Kc rkc) = Pc)
   \<and> (length Kd = 3 \<and> length rkd = 69 \<and> length Pd = 2 \<and> length Cd = 2 \<and> length Qd = 2 \<longrightarrow>
      Simon128192Decrypt Qd (Simon128192Encrypt Pd Cd (Simon128192KeySchedule Kd rkd))
        (Simon128192KeySchedule Kd rkd) = Pd)
   \<and> (length Ke = 4 \<and> length rke = 72 \<and> length Pe = 2 \<and> length Ce = 2 \<and> length Qe = 2 \<longrightarrow>
      Simon128256Decrypt Qe (Simon128256Encrypt Pe Ce (Simon128256KeySchedule Ke rke))
        (Simon128256KeySchedule Ke rke) = Pe)"
  by (simp add: roundtrip_6496 roundtrip_64128 roundtrip_128128 roundtrip_128192
        roundtrip_128256)

theorem C1_round_trip_witness:
  "Simon6496Decrypt [0, 0] (Simon6496Encrypt [5, 6] [0, 0] (Simon6496KeySchedule [1, 2, 3] (replicate 42 0)))
        (Simon6496KeySchedule [1, 2, 3] (replicate 42 0)) = [5, 6]
   \<and> Simon64128Decrypt [0, 0] (Simon64128Encrypt [5, 6] [0, 0] (Simon64128KeySchedule [1, 2, 3, 4] (replicate 44 0)))
        (Simon64128KeySchedule [1, 2, 3, 4] (replicate 44 0)) = [5, 6]
   \<and> Simon128128Decrypt [0, 0] (Simon128128Encrypt [5, 6] [0, 0] (Simon128128KeySchedule [1, 2] (replicate 68 0)))
        (Simon128128KeySchedule [1, 2] (replicate 68 0)) = [5, 6]
   \<and> Simon128192Decrypt [0, 0] (Simon128192Encrypt [5, 6] [0, 0] (Simon128192KeySchedule [1, 2, 3] (replicate 69 0)))
        (Simon128192KeySchedule [1, 2, 3] (replicate 69 0)) = [5, 6]
   \<and> Simon128256Decrypt [0, 0] (Simon128256Encrypt [5, 6] [0, 0] (Simon128256KeySchedule [1, 2, 3, 4] (replicate 72 0)))
        (Simon128256KeySchedule [1, 2, 3, 4] (replicate 72 0)) = [5, 6]"
  using C1_round_trip [where Ka = "[1, 2, 3]" and rka = "replicate 42 0" and Pa = "[5, 6]" and Ca = "[0, 0]" and Qa = "[0, 0]"
      and Kb = "[1, 2, 3, 4]" and rkb = "replicate 44 0" and Pb = "[5, 6]" and Cb = "[0, 0]" and Qb = "[0, 0]"
      and Kc = "[1, 2]" and rkc = "replicate 68 0" and Pc = "[5, 6]" and Cc = "[0, 0]" and Qc = "[0, 0]"
      and Kd = "[1, 2, 3]" and rkd = "replicate 69 0" and Pd = "[5, 6]" and Cd = "[0, 0]" and Qd = "[0, 0]"
      and Ke = "[1, 2, 3, 4]" and rke = "replicate 72 0" and Pe = "[5, 6]" and Ce = "[0, 0]" and Qe = "[0, 0]"]
  by simp

section \<open>The odd number of rounds of Simon128/192\<close>

lemma enc_fold_128192:
  "k \<le> 34 \<Longrightarrow> Simon128192Encrypt_loop (2 * k) Ct rk =
     fold (\<lambda>k Ct. case R64x2 (Ct ! 1) (Ct ! 0) (rk ! (2 * k)) (rk ! (2 * k + 1)) of
                    (x, y) \<Rightarrow> Ct[1 := x, 0 := y]) [k..<34] Ct"
proof (induction "34 - k" arbitrary: k Ct)
  case 0
  then have "k = 34" by simp
  then show ?case by (subst Simon128192Encrypt_loop.simps) simp
next
  case (Suc n)
  then have k: "k < 34" by simp
  obtain x y where R: "R64x2 (Ct ! 1) (Ct ! 0) (rk ! (2 * k)) (rk ! (2 * k + 1)) = (x, y)" by fastforce
  have "Simon128192Encrypt_loop (2 * k) Ct rk = Simon128192Encrypt_loop (2 * (k + 1)) (Ct[1 := x, 0 := y]) rk"
    using k R by (subst Simon128192Encrypt_loop.simps) simp
  also have "\<dots> = fold (\<lambda>k Ct. case R64x2 (Ct ! 1) (Ct ! 0) (rk ! (2 * k)) (rk ! (2 * k + 1)) of
                    (x, y) \<Rightarrow> Ct[1 := x, 0 := y]) [k + 1..<34] (Ct[1 := x, 0 := y])"
    using Suc(2) k by (intro Suc(1)) simp_all
  finally show ?case using k R by (simp add: upt_conv_Cons)
qed

lemma dec_fold_128192:
  "length P = 2 \<Longrightarrow> Simon128192Decrypt_loop (int n - 1) P rk =
     fold (\<lambda>i P. [P ! 1 XOR f64 (P ! 0) XOR rk ! i, P ! 0]) (rev [0..<n]) P"
proof (induction n arbitrary: P)
  case 0
  show ?case by (subst Simon128192Decrypt_loop.simps) simp
next
  case (Suc n)
  obtain a b where P: "P = [a, b]" using Suc.prems by (rule list2E)
  have "Simon128192Decrypt_loop (int (Suc n) - 1) P rk = Simon128192Decrypt_loop (int n - 1) [b XOR f64 a XOR rk ! n, a] rk"
    by (subst Simon128192Decrypt_loop.simps) (simp add: P Let_def)
  also have "\<dots> = fold (\<lambda>i P. [P ! 1 XOR f64 (P ! 0) XOR rk ! i, P ! 0]) (rev [0..<n]) [b XOR f64 a XOR rk ! n, a]"
    by (rule Suc.IH) simp
  finally show ?case by (simp add: P)
qed

text \<open>
  C2. For the 192-bit-key variant (69 rounds), encryption runs 34 paired double rounds, with
  the keys \<open>rk[2k]\<close> and \<open>rk[2k+1]\<close> for \<open>k\<close> from 0 to 33, and then one extra
  half-round that swaps the two words and mixes the round function and \<open>rk[68]\<close> into the
  second one. Decryption first applies the inverse of that half-round to its input, which
  restores the state \<open>S\<close> that the 34 double rounds had left, and then runs the 68
  remaining rounds with \<open>i\<close> from 67 down to 0.
\<close>

theorem C2_odd_round_half_step:
  assumes "length Pt = 2" "length Ct = 2" "length Qt = 2" "length Xt = 2" "length rk = 69"
  shows "let S = fold (\<lambda>k Ct. case R64x2 (Ct ! 1) (Ct ! 0) (rk ! (2 * k)) (rk ! (2 * k + 1)) of
                          (x, y) \<Rightarrow> Ct[1 := x, 0 := y]) [0..<34] Pt;
             E = Simon128192Encrypt Pt Ct rk
         in E = [S ! 1, S ! 0 XOR f64 (S ! 1) XOR rk ! 68]
            \<and> [E ! 1 XOR f64 (E ! 0) XOR rk ! 68, E ! 0] = S
            \<and> Simon128192Decrypt Qt Xt rk =
                fold (\<lambda>i P. [P ! 1 XOR f64 (P ! 0) XOR rk ! i, P ! 0]) (rev [0..<68])
                  [Xt ! 1 XOR f64 (Xt ! 0) XOR rk ! 68, Xt ! 0]"
proof -
  define S where "S = fold (\<lambda>k Ct. case R64x2 (Ct ! 1) (Ct ! 0) (rk ! (2 * k)) (rk ! (2 * k + 1)) of
                          (x, y) \<Rightarrow> Ct[1 := x, 0 := y]) [0..<34] Pt"
  obtain p0 p1 where Pt: "Pt = [p0, p1]" using assms(1) by (rule list2E)
  obtain c0 c1 where Ct: "Ct = [c0, c1]" using assms(2) by (rule list2E)
  obtain q0 q1 where Qt: "Qt = [q0, q1]" using assms(3) by (rule list2E)
  obtain x0 x1 where Xt: "Xt = [x0, x1]" using assms(4) by (rule list2E)
  have L: "Simon128192Encrypt_loop 0 Pt rk = S"
    using enc_fold_128192 [of 0 Pt rk] by (simp add: S_def)
  then have "length S = 2" using enc_len_128192 [OF assms(1), of 0 rk] by simp
  then obtain s0 s1 where S: "S = [s0, s1]" by (rule list2E)
  have E: "Simon128192Encrypt Pt Ct rk = [s1, s0 XOR f64 s1 XOR rk ! 68]"
    using L by (simp add: Simon128192Encrypt_def Pt Ct Let_def S)
  have D: "Simon128192Decrypt Qt Xt rk =
      Simon128192Decrypt_loop (int 68 - 1) [x1 XOR f64 x0 XOR rk ! 68, x0] rk"
    by (simp add: Simon128192Decrypt_def Qt Xt Let_def)
  have F: "Simon128192Decrypt_loop (int 68 - 1) [x1 XOR f64 x0 XOR rk ! 68, x0] rk =
      fold (\<lambda>i P. [P ! 1 XOR f64 (P ! 0) XOR rk ! i, P ! 0]) (rev [0..<68])
        [x1 XOR f64 x0 XOR rk ! 68, x0]"
    by (rule dec_fold_128192) simp
  have U: "[s0 XOR f64 s1 XOR rk ! 68 XOR f64 s1 XOR rk ! 68, s1] = [s0, s1]"
    by (simp add: xor.assoc xor.commute xor.left_commute)
  show ?thesis
    unfolding Let_def S_def [symmetric] E D F
    using U by (simp add: S Xt xor.assoc del: upt_Suc)
qed

theorem C2_odd_round_half_step_witness:
  "let rk = replicate 69 (1 :: u64);
       S = fold (\<lambda>k Ct. case R64x2 (Ct ! 1) (Ct ! 0) (rk ! (2 * k)) (rk ! (2 * k + 1)) of
                          (x, y) \<Rightarrow> Ct[1 := x, 0 := y]) [0..<34] [5, 6];
       E = Simon128192Encrypt [5, 6] [0, 0] rk
   in E = [S ! 1, S ! 0 XOR f64 (S ! 1) XOR rk ! 68]
      \<and> [E ! 1 XOR f64 (E ! 0) XOR rk ! 68, E ! 0] = S
      \<and> Simon128192Decrypt [0, 0] [7, 8] rk =
          fold (\<lambda>i P. [P ! 1 XOR f64 (P ! 0) XOR rk ! i, P ! 0]) (rev [0..<68])
            [[7, 8] ! 1 XOR f64 ([7, 8] ! 0) XOR rk ! 68, [7, 8] ! 0]"
  unfolding Let_def
  by (rule C2_odd_round_half_step [of "[5, 6]" "[0, 0]" "[0, 0]" "[7, 8]" "replicate 69 1",
        unfolded Let_def]; simp)

section \<open>The key schedules in closed form\<close>

text \<open>
  Each key schedule writes the first entries of one of the recurrences above and leaves the
  rest of the array as it was.
\<close>

lemma seq3_rec:
  "seq3 g a b c (n + 3) = g n (seq3 g a b c n) (seq3 g a b c (n + 1)) (seq3 g a b c (n + 2))"
  by (simp add: numeral_3_eq_3)

lemma seq4_rec:
  "seq4 g a b c d (n + 4) =
     g n (seq4 g a b c d n) (seq4 g a b c d (n + 1)) (seq4 g a b c d (n + 2))
       (seq4 g a b c d (n + 3))"
  by (simp add: numeral_eq_Suc)

lemma emit:
  "m < length rk \<Longrightarrow>
     (map s [0..<m] @ drop m rk)[m := v] = map s [0..<m] @ v # drop (Suc m) rk"
  by (simp add: list_update_append Cons_nth_drop_Suc [symmetric])

lemma emit_s:
  "m < length rk \<Longrightarrow>
     (map s [0..<m] @ drop m rk)[m := s m] = map s [0..<Suc m] @ drop (Suc m) rk"
  by (simp add: emit)

lemma trunc32_3:
  "ucast ((ucast (c :: u32) :: u64) XOR b XOR ucast x XOR ucast y XOR ucast w)
     = c XOR ucast b XOR x XOR y XOR w"
  by (simp add: unsigned_xor_eq ucast_up_ucast_id is_up)

lemma trunc32_5:
  "ucast ((ucast (c :: u32) :: u64) XOR b XOR ucast x XOR ucast y XOR ucast w XOR ucast v
            XOR ucast u)
     = c XOR ucast b XOR x XOR y XOR w XOR v XOR u"
  by (simp add: unsigned_xor_eq ucast_up_ucast_id is_up)

lemma init3:
  assumes "3 \<le> length rk"
  shows "rk[0 := a, 1 := b, 2 := c] = a # b # c # drop 3 rk"
proof -
  from assms obtain x r1 where 1: "rk = x # r1" by (cases rk) auto
  with assms obtain y r2 where 2: "r1 = y # r2" by (cases r1) auto
  with 1 assms obtain z r3 where 3: "r2 = z # r3" by (cases r2) auto
  show ?thesis by (simp add: 1 2 3)
qed

lemma init4:
  assumes "4 \<le> length rk"
  shows "rk[0 := a, 1 := b, 2 := c, 3 := d] = a # b # c # d # drop 4 rk"
proof -
  from assms obtain x r1 where 1: "rk = x # r1" by (cases rk) auto
  with assms obtain y r2 where 2: "r1 = y # r2" by (cases r1) auto
  with 1 assms obtain z r3 where 3: "r2 = z # r3" by (cases r2) auto
  with 1 2 assms obtain w r4 where 4: "r3 = w # r4" by (cases r3) auto
  show ?thesis by (simp add: 1 2 3 4)
qed

lemma ks6496_loop:
  assumes "s = seq3 (g6496 z0) a b c"
  shows "3 \<le> i \<Longrightarrow> i \<le> 42 \<Longrightarrow> 42 \<le> length rk \<Longrightarrow> z = drop_bit (i - 3) z0 \<Longrightarrow>
    rk = map s [0..<i] @ drop i rk0 \<Longrightarrow> length rk0 = length rk \<Longrightarrow>
    Simon6496KeySchedule_loop i z rk = map s [0..<42] @ drop 42 rk0"
proof (induction i z rk rule: Simon6496KeySchedule_loop.induct)
  case (1 i z rk)
  show ?case
  proof (cases "i < 42")
    case False
    with 1(3) have "i = 42" by simp
    then show ?thesis using 1(6) by (subst Simon6496KeySchedule_loop.simps) simp
  next
    case True
    obtain n where n: "i = n + 3" using 1(2) by (metis add.commute le_Suc_ex)
    have rd: "rk ! n = s n" "rk ! (n + 2) = s (n + 2)"
      using 1(6) n by (simp_all add: nth_append)
    have v: "ucast ((ucast c32 :: u64) XOR (z AND 1) XOR ucast (rk ! (i - 3))
               XOR ucast (ROTR32 (rk ! (i - 1)) 3) XOR ucast (ROTR32 (rk ! (i - 1)) 4)) = s i"
      using rd 1(5) by (simp add: n trunc32_3 assms seq3_rec g6496_def)
    have "i < length rk0" using True 1(4,7) by simp
    then have up: "rk[i := s i] = map s [0..<i + 1] @ drop (i + 1) rk0"
      by (subst 1(6)) (simp add: emit_s)
    have "Simon6496KeySchedule_loop (i + 1) (drop_bit 1 z) (rk[i := s i])
        = map s [0..<42] @ drop 42 rk0"
      by (rule 1(1) [unfolded v]) (use True 1(2,4,5,7) up in \<open>simp_all add: n\<close>)
    then show ?thesis using True v by (subst Simon6496KeySchedule_loop.simps) simp
  qed
qed

lemma ks6496_closed:
  assumes "42 \<le> length rk"
  shows "Simon6496KeySchedule K rk
       = map (seq3 (g6496 z_Simon6496) (K ! 0) (K ! 1) (K ! 2)) [0..<42] @ drop 42 rk"
proof -
  let ?s = "seq3 (g6496 z_Simon6496) (K ! 0) (K ! 1) (K ! 2)"
  have "map ?s [0..<3] = [K ! 0, K ! 1, K ! 2]"
    by (simp add: numeral_3_eq_3)
  then have "rk[0 := K ! 0, 1 := K ! 1, 2 := K ! 2] = map ?s [0..<3] @ drop 3 rk"
    using assms init3 [of rk "K ! 0" "K ! 1" "K ! 2"] by simp
  then show ?thesis
    unfolding Simon6496KeySchedule_def Let_def
    using assms
    by (intro ks6496_loop [where ?rk0.0 = rk and a = "K ! 0" and b = "K ! 1" and c = "K ! 2"])
      simp_all
qed

lemma ks64128_loop:
  assumes "s = seq4 (g64128 z0) a b c d"
  shows "4 \<le> i \<Longrightarrow> i \<le> 44 \<Longrightarrow> 44 \<le> length rk \<Longrightarrow> z = drop_bit (i - 4) z0 \<Longrightarrow>
    rk = map s [0..<i] @ drop i rk0 \<Longrightarrow> length rk0 = length rk \<Longrightarrow>
    Simon64128KeySchedule_loop i z rk = map s [0..<44] @ drop 44 rk0"
proof (induction i z rk rule: Simon64128KeySchedule_loop.induct)
  case (1 i z rk)
  show ?case
  proof (cases "i < 44")
    case False
    with 1(3) have "i = 44" by simp
    then show ?thesis using 1(6) by (subst Simon64128KeySchedule_loop.simps) simp
  next
    case True
    obtain n where n: "i = n + 4" using 1(2) by (metis add.commute le_Suc_ex)
    have rd: "rk ! (i - 4) = s n" "rk ! (i - 3) = s (n + 1)" "rk ! (i - 1) = s (n + 3)"
      using 1(6) n by (simp_all add: nth_append add.commute)
    have v: "ucast ((ucast c32 :: u64) XOR (z AND 1) XOR ucast (rk ! (i - 4))
               XOR ucast (ROTR32 (rk ! (i - 1)) 3) XOR ucast (rk ! (i - 3))
               XOR ucast (ROTR32 (rk ! (i - 1)) 4) XOR ucast (ROTR32 (rk ! (i - 3)) 1)) = s i"
      unfolding rd using 1(5) by (simp add: n trunc32_5 assms seq4_rec g64128_def)
    have "i < length rk0" using True 1(4,7) by simp
    then have up: "rk[i := s i] = map s [0..<i + 1] @ drop (i + 1) rk0"
      by (subst 1(6)) (simp add: emit_s)
    have "Simon64128KeySchedule_loop (i + 1) (drop_bit 1 z) (rk[i := s i])
        = map s [0..<44] @ drop 44 rk0"
      by (rule 1(1) [unfolded v]) (use True 1(2,4,5,7) up in \<open>simp_all add: n\<close>)
    then show ?thesis using True v by (subst Simon64128KeySchedule_loop.simps) simp
  qed
qed

lemma ks64128_closed:
  assumes "44 \<le> length rk"
  shows "Simon64128KeySchedule K rk
       = map (seq4 (g64128 z_Simon64128) (K ! 0) (K ! 1) (K ! 2) (K ! 3)) [0..<44] @ drop 44 rk"
proof -
  let ?s = "seq4 (g64128 z_Simon64128) (K ! 0) (K ! 1) (K ! 2) (K ! 3)"
  have "map ?s [0..<4] = [K ! 0, K ! 1, K ! 2, K ! 3]"
    by (simp add: numeral_eq_Suc)
  then have "rk[0 := K ! 0, 1 := K ! 1, 2 := K ! 2, 3 := K ! 3] = map ?s [0..<4] @ drop 4 rk"
    using assms init4 [of rk "K ! 0" "K ! 1" "K ! 2" "K ! 3"] by simp
  then show ?thesis
    unfolding Simon64128KeySchedule_def Let_def
    using assms
    by (intro ks64128_loop [where ?rk0.0 = rk and a = "K ! 0" and b = "K ! 1" and c = "K ! 2"
          and d = "K ! 3"]) simp_all
qed

lemma ks128128_body_fst: "fst (Simon128128KeySchedule_body s) = fst s + 2"
  by (cases s) (simp add: Simon128128KeySchedule_body_def Let_def)

lemma ks128128_loop_funpow:
  "fst s + 2 * n = 64 \<Longrightarrow>
     Simon128128KeySchedule_loop s = (Simon128128KeySchedule_body ^^ n) s"
proof (induction n arbitrary: s)
  case 0
  then show ?case by (cases s) (simp add: Simon128128KeySchedule_loop.simps)
next
  case (Suc n)
  then have "fst (Simon128128KeySchedule_body s) + 2 * n = 64"
    by (simp add: ks128128_body_fst)
  then have "Simon128128KeySchedule_loop (Simon128128KeySchedule_body s)
      = (Simon128128KeySchedule_body ^^ n) (Simon128128KeySchedule_body s)"
    by (rule Suc.IH)
  moreover have "fst s < 64" using Suc.prems by simp
  ultimately show ?case
    by (cases s) (simp add: Simon128128KeySchedule_loop.simps funpow_swap1)
qed

lemma ks128128_body_closed:
  assumes "s = seq2 g128128 a b" "m + 2 \<le> 64" "64 \<le> length rk"
  shows "Simon128128KeySchedule_body
           (m, s m, s (m + 1), drop_bit m z_Simon128128, map s [0..<m] @ drop m rk)
       = (m + 2, s (m + 2), s (m + 3), drop_bit (m + 2) z_Simon128128,
          map s [0..<m + 2] @ drop (m + 2) rk)"
proof -
  have b0: "drop_bit m z_Simon128128 AND 1 = b128128 m"
    using assms(2) by (simp add: b128128_def)
  have b1: "drop_bit (Suc m) z_Simon128128 AND 1 = b128128 (Suc m)"
    using assms(2) by (simp add: b128128_def)
  have A: "s m XOR (c64 XOR b128128 m XOR ROTR64 (s (Suc m)) 3 XOR ROTR64 (s (Suc m)) 4)
      = s (Suc (Suc m))"
    by (simp add: assms(1) g128128_def)
  have B: "s (Suc m) XOR (c64 XOR b128128 (Suc m) XOR ROTR64 (s (Suc (Suc m))) 3
        XOR ROTR64 (s (Suc (Suc m))) 4) = s (Suc (Suc (Suc m)))"
    by (simp add: assms(1) g128128_def)
  have e1: "(map s [0..<m] @ drop m rk)[m := s m] = map s [0..<Suc m] @ drop (Suc m) rk"
    using assms(2,3) by (intro emit_s) simp
  have e2: "(map s [0..<Suc m] @ drop (Suc m) rk)[Suc m := s (Suc m)]
      = map s [0..<Suc (Suc m)] @ drop (Suc (Suc m)) rk"
    using assms(2,3) by (intro emit_s) simp
  have n3: "m + 3 = Suc (Suc (Suc m))" by simp
  show ?thesis
    by (simp add: Simon128128KeySchedule_body_def Let_def b0 b1 A B e1 e2 n3 del: upt_Suc)
qed

lemma ks128128_funpow_closed:
  assumes "s = seq2 g128128 a b" "64 \<le> length rk"
  shows "2 * n \<le> 64 \<Longrightarrow>
    (Simon128128KeySchedule_body ^^ n) (0, a, b, z_Simon128128, rk)
       = (2 * n, s (2 * n), s (2 * n + 1), drop_bit (2 * n) z_Simon128128,
          map s [0..<2 * n] @ drop (2 * n) rk)"
proof (induction n)
  case 0
  then show ?case by (simp add: assms(1))
next
  case (Suc n)
  then have "(Simon128128KeySchedule_body ^^ n) (0, a, b, z_Simon128128, rk)
       = (2 * n, s (2 * n), s (2 * n + 1), drop_bit (2 * n) z_Simon128128,
          map s [0..<2 * n] @ drop (2 * n) rk)"
    by simp
  moreover have "2 * n + 2 \<le> 64" using Suc.prems by simp
  ultimately show ?case
    using ks128128_body_closed [OF assms(1) _ assms(2), of "2 * n"]
    by (simp add: add.commute [of 2] numeral_3_eq_3)
qed

lemma ks128128_loop_closed:
  assumes "s = seq2 g128128 a b" "64 \<le> length rk"
  shows "Simon128128KeySchedule_loop (0, a, b, z_Simon128128, rk)
       = (64, s 64, s 65, drop_bit 64 z_Simon128128, map s [0..<64] @ drop 64 rk)"
proof -
  have "Simon128128KeySchedule_loop (0, a, b, z_Simon128128, rk)
       = (Simon128128KeySchedule_body ^^ 32) (0, a, b, z_Simon128128, rk)"
    by (rule ks128128_loop_funpow) simp
  also have "\<dots> = (64, s 64, s 65, drop_bit 64 z_Simon128128, map s [0..<64] @ drop 64 rk)"
    using ks128128_funpow_closed [OF assms, of 32] by simp
  finally show ?thesis .
qed

lemma ks128128_closed:
  assumes "68 \<le> length rk"
  shows "Simon128128KeySchedule K rk = map (seq2 g128128 (K ! 0) (K ! 1)) [0..<68] @ drop 68 rk"
proof -
  define s where "s = seq2 g128128 (K ! 0) (K ! 1)"
  have L: "Simon128128KeySchedule_loop (0, K ! 0, K ! 1, z_Simon128128, rk)
       = (64, s 64, s 65, drop_bit 64 z_Simon128128, map s [0..<64] @ drop 64 rk)"
    using assms by (intro ks128128_loop_closed [OF s_def]) simp
  have A: "s 64 XOR (c64 XOR 1 XOR ROTR64 (s 65) 3 XOR ROTR64 (s 65) 4) = s 66"
    using seq2.simps(3) [of g128128 "K ! 0" "K ! 1" 64]
    by (simp add: s_def g128128_def b128128_def)
  have B: "s 65 XOR (c64 XOR 0 XOR ROTR64 (s 66) 3 XOR ROTR64 (s 66) 4) = s 67"
    using seq2.simps(3) [of g128128 "K ! 0" "K ! 1" 65]
    by (simp add: s_def g128128_def b128128_def)
  have e: "(map s [0..<64] @ drop 64 rk)[64 := s 64] = map s [0..<65] @ drop 65 rk"
     "(map s [0..<65] @ drop 65 rk)[65 := s 65] = map s [0..<66] @ drop 66 rk"
     "(map s [0..<66] @ drop 66 rk)[66 := s 66] = map s [0..<67] @ drop 67 rk"
     "(map s [0..<67] @ drop 67 rk)[67 := s 67] = map s [0..<68] @ drop 68 rk"
    using assms emit_s [of 64 rk s] emit_s [of 65 rk s] emit_s [of 66 rk s] emit_s [of 67 rk s]
    by simp_all
  show ?thesis
    unfolding Simon128128KeySchedule_def L prod.case Let_def A B e s_def [symmetric] ..
qed

lemma ks128192_body_fst: "fst (Simon128192KeySchedule_body s) = fst s + 3"
  by (cases s) (simp add: Simon128192KeySchedule_body_def Let_def)

lemma ks128192_loop_funpow:
  "fst s + 3 * n = 63 \<Longrightarrow>
     Simon128192KeySchedule_loop s = (Simon128192KeySchedule_body ^^ n) s"
proof (induction n arbitrary: s)
  case 0
  then show ?case by (cases s) (simp add: Simon128192KeySchedule_loop.simps)
next
  case (Suc n)
  then have "fst (Simon128192KeySchedule_body s) + 3 * n = 63"
    by (simp add: ks128192_body_fst)
  then have "Simon128192KeySchedule_loop (Simon128192KeySchedule_body s)
      = (Simon128192KeySchedule_body ^^ n) (Simon128192KeySchedule_body s)"
    by (rule Suc.IH)
  moreover have "fst s < 63" using Suc.prems by simp
  ultimately show ?case
    by (cases s) (simp add: Simon128192KeySchedule_loop.simps funpow_swap1)
qed

lemma ks128192_body_closed:
  assumes "s = seq3 g128192 a b c" "m + 3 \<le> 63" "63 \<le> length rk"
  shows "Simon128192KeySchedule_body
           (m, s m, s (m + 1), s (m + 2), drop_bit m z_Simon128192, map s [0..<m] @ drop m rk)
       = (m + 3, s (m + 3), s (m + 4), s (m + 5), drop_bit (m + 3) z_Simon128192,
          map s [0..<m + 3] @ drop (m + 3) rk)"
proof -
  have n3: "m + 3 = Suc (Suc (Suc m))" "m + 4 = Suc (Suc (Suc (Suc m)))"
    "m + 5 = Suc (Suc (Suc (Suc (Suc m))))" by simp_all
  have b0: "drop_bit m z_Simon128192 AND 1 = b128192 m"
    using assms(2) by (simp add: b128192_def)
  have b1: "drop_bit (Suc m) z_Simon128192 AND 1 = b128192 (Suc m)"
    using assms(2) by (simp add: b128192_def)
  have b2: "drop_bit (Suc (Suc m)) z_Simon128192 AND 1 = b128192 (Suc (Suc m))"
    using assms(2) by (simp add: b128192_def)
  have A: "s m XOR (c64 XOR b128192 m XOR ROTR64 (s (Suc (Suc m))) 3
        XOR ROTR64 (s (Suc (Suc m))) 4) = s (Suc (Suc (Suc m)))"
    by (simp add: assms(1) g128192_def)
  have B: "s (Suc m) XOR (c64 XOR b128192 (Suc m) XOR ROTR64 (s (Suc (Suc (Suc m)))) 3
        XOR ROTR64 (s (Suc (Suc (Suc m)))) 4) = s (Suc (Suc (Suc (Suc m))))"
    by (simp add: assms(1) g128192_def)
  have C: "s (Suc (Suc m)) XOR (c64 XOR b128192 (Suc (Suc m))
        XOR ROTR64 (s (Suc (Suc (Suc (Suc m))))) 3
        XOR ROTR64 (s (Suc (Suc (Suc (Suc m))))) 4) = s (Suc (Suc (Suc (Suc (Suc m)))))"
    by (simp add: assms(1) g128192_def)
  have e1: "(map s [0..<m] @ drop m rk)[m := s m] = map s [0..<Suc m] @ drop (Suc m) rk"
    using assms(2,3) by (intro emit_s) simp
  have e2: "(map s [0..<Suc m] @ drop (Suc m) rk)[Suc m := s (Suc m)]
      = map s [0..<Suc (Suc m)] @ drop (Suc (Suc m)) rk"
    using assms(2,3) by (intro emit_s) simp
  have e3: "(map s [0..<Suc (Suc m)] @ drop (Suc (Suc m)) rk)[Suc (Suc m) := s (Suc (Suc m))]
      = map s [0..<Suc (Suc (Suc m))] @ drop (Suc (Suc (Suc m))) rk"
    using assms(2,3) by (intro emit_s) simp
  show ?thesis
    by (simp add: Simon128192KeySchedule_body_def Let_def b0 b1 b2 A B C e1 e2 e3 n3
          del: upt_Suc)
qed

lemma ks128192_funpow_closed:
  assumes "s = seq3 g128192 a b c" "63 \<le> length rk"
  shows "3 * n \<le> 63 \<Longrightarrow>
    (Simon128192KeySchedule_body ^^ n) (0, a, b, c, z_Simon128192, rk)
       = (3 * n, s (3 * n), s (3 * n + 1), s (3 * n + 2), drop_bit (3 * n) z_Simon128192,
          map s [0..<3 * n] @ drop (3 * n) rk)"
proof (induction n)
  case 0
  then show ?case by (simp add: assms(1) numeral_2_eq_2)
next
  case (Suc n)
  then have "(Simon128192KeySchedule_body ^^ n) (0, a, b, c, z_Simon128192, rk)
       = (3 * n, s (3 * n), s (3 * n + 1), s (3 * n + 2), drop_bit (3 * n) z_Simon128192,
          map s [0..<3 * n] @ drop (3 * n) rk)"
    by simp
  moreover have "3 * n + 3 \<le> 63" using Suc.prems by simp
  moreover have "3 * Suc n = 3 * n + 3" "3 * n + 3 + 1 = 3 * n + 4" "3 * n + 3 + 2 = 3 * n + 5"
    by simp_all
  ultimately show ?case
    using ks128192_body_closed [OF assms(1) _ assms(2), of "3 * n"]
    by (simp only: funpow.simps o_apply)
qed

lemma ks128192_loop_closed:
  assumes "s = seq3 g128192 a b c" "63 \<le> length rk"
  shows "Simon128192KeySchedule_loop (0, a, b, c, z_Simon128192, rk)
       = (63, s 63, s 64, s 65, drop_bit 63 z_Simon128192, map s [0..<63] @ drop 63 rk)"
proof -
  have "Simon128192KeySchedule_loop (0, a, b, c, z_Simon128192, rk)
       = (Simon128192KeySchedule_body ^^ 21) (0, a, b, c, z_Simon128192, rk)"
    by (rule ks128192_loop_funpow) simp
  also have "\<dots> = (63, s 63, s 64, s 65, drop_bit 63 z_Simon128192,
      map s [0..<63] @ drop 63 rk)"
    using ks128192_funpow_closed [OF assms, of 21] by simp
  finally show ?thesis .
qed

lemma ks128192_closed:
  assumes "69 \<le> length rk"
  shows "Simon128192KeySchedule K rk
       = map (seq3 g128192 (K ! 0) (K ! 1) (K ! 2)) [0..<69] @ drop 69 rk"
proof -
  define s where "s = seq3 g128192 (K ! 0) (K ! 1) (K ! 2)"
  have L: "Simon128192KeySchedule_loop (0, K ! 0, K ! 1, K ! 2, z_Simon128192, rk)
       = (63, s 63, s 64, s 65, drop_bit 63 z_Simon128192, map s [0..<63] @ drop 63 rk)"
    using assms by (intro ks128192_loop_closed [OF s_def]) simp
  have A: "s 63 XOR (c64 XOR 1 XOR ROTR64 (s 65) 3 XOR ROTR64 (s 65) 4) = s 66"
    using seq3_rec [of g128192 "K ! 0" "K ! 1" "K ! 2" 63]
    by (simp add: s_def g128192_def b128192_def)
  have B: "s 64 XOR (c64 XOR 0 XOR ROTR64 (s 66) 3 XOR ROTR64 (s 66) 4) = s 67"
    using seq3_rec [of g128192 "K ! 0" "K ! 1" "K ! 2" 64]
    by (simp add: s_def g128192_def b128192_def)
  have C: "s 65 XOR (c64 XOR 1 XOR ROTR64 (s 67) 3 XOR ROTR64 (s 67) 4) = s 68"
    using seq3_rec [of g128192 "K ! 0" "K ! 1" "K ! 2" 65]
    by (simp add: s_def g128192_def b128192_def)
  have e: "(map s [0..<63] @ drop 63 rk)[63 := s 63] = map s [0..<64] @ drop 64 rk"
     "(map s [0..<64] @ drop 64 rk)[64 := s 64] = map s [0..<65] @ drop 65 rk"
     "(map s [0..<65] @ drop 65 rk)[65 := s 65] = map s [0..<66] @ drop 66 rk"
     "(map s [0..<66] @ drop 66 rk)[66 := s 66] = map s [0..<67] @ drop 67 rk"
     "(map s [0..<67] @ drop 67 rk)[67 := s 67] = map s [0..<68] @ drop 68 rk"
     "(map s [0..<68] @ drop 68 rk)[68 := s 68] = map s [0..<69] @ drop 69 rk"
    using assms emit_s [of 63 rk s] emit_s [of 64 rk s] emit_s [of 65 rk s]
      emit_s [of 66 rk s] emit_s [of 67 rk s] emit_s [of 68 rk s]
    by simp_all
  show ?thesis
    unfolding Simon128192KeySchedule_def L prod.case Let_def A B C e s_def [symmetric] ..
qed

lemma ks128256_body_fst: "fst (Simon128256KeySchedule_body s) = fst s + 4"
  by (cases s) (simp add: Simon128256KeySchedule_body_def Let_def)

lemma ks128256_loop_funpow:
  "fst s + 4 * n = 64 \<Longrightarrow>
     Simon128256KeySchedule_loop s = (Simon128256KeySchedule_body ^^ n) s"
proof (induction n arbitrary: s)
  case 0
  then show ?case by (cases s) (simp add: Simon128256KeySchedule_loop.simps)
next
  case (Suc n)
  then have "fst (Simon128256KeySchedule_body s) + 4 * n = 64"
    by (simp add: ks128256_body_fst)
  then have "Simon128256KeySchedule_loop (Simon128256KeySchedule_body s)
      = (Simon128256KeySchedule_body ^^ n) (Simon128256KeySchedule_body s)"
    by (rule Suc.IH)
  moreover have "fst s < 64" using Suc.prems by simp
  ultimately show ?case
    by (cases s) (simp add: Simon128256KeySchedule_loop.simps funpow_swap1)
qed

lemma ks128256_body_closed:
  assumes "s = seq4 g128256 a b c d" "m + 4 \<le> 64" "64 \<le> length rk"
  shows "Simon128256KeySchedule_body
           (m, s m, s (m + 1), s (m + 2), s (m + 3), drop_bit m z_Simon128256,
            map s [0..<m] @ drop m rk)
       = (m + 4, s (m + 4), s (m + 5), s (m + 6), s (m + 7), drop_bit (m + 4) z_Simon128256,
          map s [0..<m + 4] @ drop (m + 4) rk)"
proof -
  have n3: "m + 3 = Suc (Suc (Suc m))" "m + 4 = Suc (Suc (Suc (Suc m)))" "m + 5 = Suc (Suc (Suc (Suc (Suc m))))" "m + 6 = Suc (Suc (Suc (Suc (Suc (Suc m)))))" "m + 7 = Suc (Suc (Suc (Suc (Suc (Suc (Suc m))))))"
    by simp_all
  have b0: "drop_bit (m) z_Simon128256 AND 1 = b128256 (m)"
    using assms(2) by (simp add: b128256_def)
  have b1: "drop_bit (Suc m) z_Simon128256 AND 1 = b128256 (Suc m)"
    using assms(2) by (simp add: b128256_def)
  have b2: "drop_bit (Suc (Suc m)) z_Simon128256 AND 1 = b128256 (Suc (Suc m))"
    using assms(2) by (simp add: b128256_def)
  have b3: "drop_bit (Suc (Suc (Suc m))) z_Simon128256 AND 1 = b128256 (Suc (Suc (Suc m)))"
    using assms(2) by (simp add: b128256_def)
  have A: "s m XOR (c64 XOR b128256 (m) XOR ROTR64 (s (Suc (Suc (Suc m)))) 3 XOR ROTR64 (s (Suc (Suc (Suc m)))) 4
        XOR s (Suc m) XOR ROTR64 (s (Suc m)) (Suc 0)) = s (Suc (Suc (Suc (Suc m))))"
    by (simp add: assms(1) g128256_def)
  have B: "s (Suc m) XOR (c64 XOR b128256 (Suc m) XOR ROTR64 (s (Suc (Suc (Suc (Suc m))))) 3 XOR ROTR64 (s (Suc (Suc (Suc (Suc m))))) 4
        XOR s (Suc (Suc m)) XOR ROTR64 (s (Suc (Suc m))) (Suc 0)) = s (Suc (Suc (Suc (Suc (Suc m)))))"
    by (simp add: assms(1) g128256_def)
  have C: "s (Suc (Suc m)) XOR (c64 XOR b128256 (Suc (Suc m)) XOR ROTR64 (s (Suc (Suc (Suc (Suc (Suc m)))))) 3 XOR ROTR64 (s (Suc (Suc (Suc (Suc (Suc m)))))) 4
        XOR s (Suc (Suc (Suc m))) XOR ROTR64 (s (Suc (Suc (Suc m)))) (Suc 0)) = s (Suc (Suc (Suc (Suc (Suc (Suc m))))))"
    by (simp add: assms(1) g128256_def)
  have D: "s (Suc (Suc (Suc m))) XOR (c64 XOR b128256 (Suc (Suc (Suc m))) XOR ROTR64 (s (Suc (Suc (Suc (Suc (Suc (Suc m))))))) 3 XOR ROTR64 (s (Suc (Suc (Suc (Suc (Suc (Suc m))))))) 4
        XOR s (Suc (Suc (Suc (Suc m)))) XOR ROTR64 (s (Suc (Suc (Suc (Suc m))))) (Suc 0)) = s (Suc (Suc (Suc (Suc (Suc (Suc (Suc m)))))))"
    by (simp add: assms(1) g128256_def)
  have e1: "(map s [0..<m] @ drop (m) rk)[m := s m]
      = map s [0..<Suc m] @ drop (Suc m) rk"
    using assms(2,3) by (intro emit_s) simp
  have e2: "(map s [0..<Suc m] @ drop (Suc m) rk)[Suc m := s (Suc m)]
      = map s [0..<Suc (Suc m)] @ drop (Suc (Suc m)) rk"
    using assms(2,3) by (intro emit_s) simp
  have e3: "(map s [0..<Suc (Suc m)] @ drop (Suc (Suc m)) rk)[Suc (Suc m) := s (Suc (Suc m))]
      = map s [0..<Suc (Suc (Suc m))] @ drop (Suc (Suc (Suc m))) rk"
    using assms(2,3) by (intro emit_s) simp
  have e4: "(map s [0..<Suc (Suc (Suc m))] @ drop (Suc (Suc (Suc m))) rk)[Suc (Suc (Suc m)) := s (Suc (Suc (Suc m)))]
      = map s [0..<Suc (Suc (Suc (Suc m)))] @ drop (Suc (Suc (Suc (Suc m)))) rk"
    using assms(2,3) by (intro emit_s) simp
  show ?thesis
    by (simp add: Simon128256KeySchedule_body_def Let_def b0 b1 b2 b3 A B C D e1 e2 e3 e4 n3
          del: upt_Suc)
qed

lemma ks128256_funpow_closed:
  assumes "s = seq4 g128256 a b c d" "64 \<le> length rk"
  shows "4 * n \<le> 64 \<Longrightarrow>
    (Simon128256KeySchedule_body ^^ n) (0, a, b, c, d, z_Simon128256, rk)
       = (4 * n, s (4 * n), s (4 * n + 1), s (4 * n + 2), s (4 * n + 3),
          drop_bit (4 * n) z_Simon128256, map s [0..<4 * n] @ drop (4 * n) rk)"
proof (induction n)
  case 0
  then show ?case by (simp add: assms(1) numeral_eq_Suc)
next
  case (Suc n)
  then have "(Simon128256KeySchedule_body ^^ n) (0, a, b, c, d, z_Simon128256, rk)
       = (4 * n, s (4 * n), s (4 * n + 1), s (4 * n + 2), s (4 * n + 3),
          drop_bit (4 * n) z_Simon128256, map s [0..<4 * n] @ drop (4 * n) rk)"
    by simp
  moreover have "4 * n + 4 \<le> 64" using Suc.prems by simp
  moreover have "4 * Suc n = 4 * n + 4" "4 * n + 4 + 1 = 4 * n + 5" "4 * n + 4 + 2 = 4 * n + 6"
    "4 * n + 4 + 3 = 4 * n + 7"
    by simp_all
  ultimately show ?case
    using ks128256_body_closed [OF assms(1) _ assms(2), of "4 * n"]
    by (simp only: funpow.simps o_apply)
qed

lemma ks128256_loop_closed:
  assumes "s = seq4 g128256 a b c d" "64 \<le> length rk"
  shows "Simon128256KeySchedule_loop (0, a, b, c, d, z_Simon128256, rk)
       = (64, s 64, s 65, s 66, s 67, drop_bit 64 z_Simon128256, map s [0..<64] @ drop 64 rk)"
proof -
  have "Simon128256KeySchedule_loop (0, a, b, c, d, z_Simon128256, rk)
       = (Simon128256KeySchedule_body ^^ 16) (0, a, b, c, d, z_Simon128256, rk)"
    by (rule ks128256_loop_funpow) simp
  also have "\<dots> = (64, s 64, s 65, s 66, s 67, drop_bit 64 z_Simon128256,
      map s [0..<64] @ drop 64 rk)"
    using ks128256_funpow_closed [OF assms, of 16] by simp
  finally show ?thesis .
qed

lemma ks128256_closed:
  assumes "72 \<le> length rk"
  shows "Simon128256KeySchedule K rk
       = map (seq4 g128256 (K ! 0) (K ! 1) (K ! 2) (K ! 3)) [0..<72] @ drop 72 rk"
proof -
  define s where "s = seq4 g128256 (K ! 0) (K ! 1) (K ! 2) (K ! 3)"
  have L: "Simon128256KeySchedule_loop (0, K ! 0, K ! 1, K ! 2, K ! 3, z_Simon128256, rk)
       = (64, s 64, s 65, s 66, s 67, drop_bit 64 z_Simon128256, map s [0..<64] @ drop 64 rk)"
    using assms by (intro ks128256_loop_closed [OF s_def]) simp
  have A: "s 64 XOR (c64 XOR 0 XOR ROTR64 (s 67) 3 XOR ROTR64 (s 67) 4 XOR s 65
        XOR ROTR64 (s 65) 1) = s 68"
    using seq4_rec [of g128256 "K ! 0" "K ! 1" "K ! 2" "K ! 3" 64]
    by (simp add: s_def g128256_def b128256_def)
  have B: "s 65 XOR (c64 XOR 1 XOR ROTR64 (s 68) 3 XOR ROTR64 (s 68) 4 XOR s 66
        XOR ROTR64 (s 66) 1) = s 69"
    using seq4_rec [of g128256 "K ! 0" "K ! 1" "K ! 2" "K ! 3" 65]
    by (simp add: s_def g128256_def b128256_def)
  have C: "s 66 XOR (c64 XOR 0 XOR ROTR64 (s 69) 3 XOR ROTR64 (s 69) 4 XOR s 67
        XOR ROTR64 (s 67) 1) = s 70"
    using seq4_rec [of g128256 "K ! 0" "K ! 1" "K ! 2" "K ! 3" 66]
    by (simp add: s_def g128256_def b128256_def)
  have D: "s 67 XOR (c64 XOR 0 XOR ROTR64 (s 70) 3 XOR ROTR64 (s 70) 4 XOR s 68
        XOR ROTR64 (s 68) 1) = s 71"
    using seq4_rec [of g128256 "K ! 0" "K ! 1" "K ! 2" "K ! 3" 67]
    by (simp add: s_def g128256_def b128256_def)
  have e: "(map s [0..<64] @ drop 64 rk)[64 := s 64] = map s [0..<65] @ drop 65 rk"
     "(map s [0..<65] @ drop 65 rk)[65 := s 65] = map s [0..<66] @ drop 66 rk"
     "(map s [0..<66] @ drop 66 rk)[66 := s 66] = map s [0..<67] @ drop 67 rk"
     "(map s [0..<67] @ drop 67 rk)[67 := s 67] = map s [0..<68] @ drop 68 rk"
     "(map s [0..<68] @ drop 68 rk)[68 := s 68] = map s [0..<69] @ drop 69 rk"
     "(map s [0..<69] @ drop 69 rk)[69 := s 69] = map s [0..<70] @ drop 70 rk"
     "(map s [0..<70] @ drop 70 rk)[70 := s 70] = map s [0..<71] @ drop 71 rk"
     "(map s [0..<71] @ drop 71 rk)[71 := s 71] = map s [0..<72] @ drop 72 rk"
    using assms emit_s [of 64 rk s] emit_s [of 65 rk s] emit_s [of 66 rk s]
      emit_s [of 67 rk s] emit_s [of 68 rk s] emit_s [of 69 rk s] emit_s [of 70 rk s]
      emit_s [of 71 rk s]
    by simp_all
  show ?thesis
    unfolding Simon128256KeySchedule_def L prod.case Let_def A B C D e s_def [symmetric] ..
qed

section \<open>Length and prefix of the schedules\<close>

lemma take_seq2:
  assumes "length K = 2" "2 \<le> N"
  shows "take 2 (map (seq2 g (K ! 0) (K ! 1)) [0..<N] @ r) = K"
proof (rule nth_equalityI)
  show "length (take 2 (map (seq2 g (K ! 0) (K ! 1)) [0..<N] @ r)) = length K"
    using assms by simp
  fix i assume "i < length (take 2 (map (seq2 g (K ! 0) (K ! 1)) [0..<N] @ r))"
  then have i: "i < 2" by simp
  then have "i = 0 \<or> i = 1" by arith
  then have "seq2 g (K ! 0) (K ! 1) i = K ! i" by auto
  then show "take 2 (map (seq2 g (K ! 0) (K ! 1)) [0..<N] @ r) ! i = K ! i"
    using i assms(2) by (simp add: nth_append)
qed

lemma take_seq3:
  assumes "length K = 3" "3 \<le> N"
  shows "take 3 (map (seq3 g (K ! 0) (K ! 1) (K ! 2)) [0..<N] @ r) = K"
proof (rule nth_equalityI)
  show "length (take 3 (map (seq3 g (K ! 0) (K ! 1) (K ! 2)) [0..<N] @ r)) = length K"
    using assms by simp
  fix i assume "i < length (take 3 (map (seq3 g (K ! 0) (K ! 1) (K ! 2)) [0..<N] @ r))"
  then have i: "i < 3" by simp
  then have "i = 0 \<or> i = 1 \<or> i = 2" by arith
  then have "seq3 g (K ! 0) (K ! 1) (K ! 2) i = K ! i" by (auto simp: numeral_2_eq_2)
  then show "take 3 (map (seq3 g (K ! 0) (K ! 1) (K ! 2)) [0..<N] @ r) ! i = K ! i"
    using i assms(2) by (simp add: nth_append)
qed

lemma take_seq4:
  assumes "length K = 4" "4 \<le> N"
  shows "take 4 (map (seq4 g (K ! 0) (K ! 1) (K ! 2) (K ! 3)) [0..<N] @ r) = K"
proof (rule nth_equalityI)
  show "length (take 4 (map (seq4 g (K ! 0) (K ! 1) (K ! 2) (K ! 3)) [0..<N] @ r)) = length K"
    using assms by simp
  fix i assume "i < length (take 4 (map (seq4 g (K ! 0) (K ! 1) (K ! 2) (K ! 3)) [0..<N] @ r))"
  then have i: "i < 4" by simp
  then have "i = 0 \<or> i = 1 \<or> i = 2 \<or> i = 3" by arith
  then have "seq4 g (K ! 0) (K ! 1) (K ! 2) (K ! 3) i = K ! i"
    by (auto simp: numeral_2_eq_2 numeral_3_eq_3)
  then show "take 4 (map (seq4 g (K ! 0) (K ! 1) (K ! 2) (K ! 3)) [0..<N] @ r) ! i = K ! i"
    using i assms(2) by (simp add: nth_append)
qed

lemma ks6496_prefix: "length K = 3 \<Longrightarrow> 42 \<le> length rk \<Longrightarrow> take 3 (Simon6496KeySchedule K rk) = K"
  by (simp only: ks6496_closed take_seq3)

lemma ks6496_length: "42 \<le> length rk \<Longrightarrow> length (Simon6496KeySchedule K rk) = length rk"
  by (simp add: ks6496_closed)

lemma ks6496_drop: "42 \<le> length rk \<Longrightarrow> drop 42 (Simon6496KeySchedule K rk) = drop 42 rk"
  by (simp add: ks6496_closed)

lemma ks6496_take:
  "42 \<le> length rk \<Longrightarrow> 42 \<le> length rk' \<Longrightarrow>
     take 42 (Simon6496KeySchedule K rk) = take 42 (Simon6496KeySchedule K rk')"
  by (simp add: ks6496_closed)

lemma ks64128_prefix: "length K = 4 \<Longrightarrow> 44 \<le> length rk \<Longrightarrow> take 4 (Simon64128KeySchedule K rk) = K"
  by (simp only: ks64128_closed take_seq4)

lemma ks64128_length: "44 \<le> length rk \<Longrightarrow> length (Simon64128KeySchedule K rk) = length rk"
  by (simp add: ks64128_closed)

lemma ks64128_drop: "44 \<le> length rk \<Longrightarrow> drop 44 (Simon64128KeySchedule K rk) = drop 44 rk"
  by (simp add: ks64128_closed)

lemma ks64128_take:
  "44 \<le> length rk \<Longrightarrow> 44 \<le> length rk' \<Longrightarrow>
     take 44 (Simon64128KeySchedule K rk) = take 44 (Simon64128KeySchedule K rk')"
  by (simp add: ks64128_closed)

lemma ks128128_prefix: "length K = 2 \<Longrightarrow> 68 \<le> length rk \<Longrightarrow> take 2 (Simon128128KeySchedule K rk) = K"
  by (simp only: ks128128_closed take_seq2)

lemma ks128128_length: "68 \<le> length rk \<Longrightarrow> length (Simon128128KeySchedule K rk) = length rk"
  by (simp add: ks128128_closed)

lemma ks128128_drop: "68 \<le> length rk \<Longrightarrow> drop 68 (Simon128128KeySchedule K rk) = drop 68 rk"
  by (simp add: ks128128_closed)

lemma ks128128_take:
  "68 \<le> length rk \<Longrightarrow> 68 \<le> length rk' \<Longrightarrow>
     take 68 (Simon128128KeySchedule K rk) = take 68 (Simon128128KeySchedule K rk')"
  by (simp add: ks128128_closed)

lemma ks128192_prefix: "length K = 3 \<Longrightarrow> 69 \<le> length rk \<Longrightarrow> take 3 (Simon128192KeySchedule K rk) = K"
  by (simp only: ks128192_closed take_seq3)

lemma ks128192_length: "69 \<le> length rk \<Longrightarrow> length (Simon128192KeySchedule K rk) = length rk"
  by (simp add: ks128192_closed)

lemma ks128192_drop: "69 \<le> length rk \<Longrightarrow> drop 69 (Simon128192KeySchedule K rk) = drop 69 rk"
  by (simp add: ks128192_closed)

lemma ks128192_take:
  "69 \<le> length rk \<Longrightarrow> 69 \<le> length rk' \<Longrightarrow>
     take 69 (Simon128192KeySchedule K rk) = take 69 (Simon128192KeySchedule K rk')"
  by (simp add: ks128192_closed)

lemma ks128256_prefix: "length K = 4 \<Longrightarrow> 72 \<le> length rk \<Longrightarrow> take 4 (Simon128256KeySchedule K rk) = K"
  by (simp only: ks128256_closed take_seq4)

lemma ks128256_length: "72 \<le> length rk \<Longrightarrow> length (Simon128256KeySchedule K rk) = length rk"
  by (simp add: ks128256_closed)

lemma ks128256_drop: "72 \<le> length rk \<Longrightarrow> drop 72 (Simon128256KeySchedule K rk) = drop 72 rk"
  by (simp add: ks128256_closed)

lemma ks128256_take:
  "72 \<le> length rk \<Longrightarrow> 72 \<le> length rk' \<Longrightarrow>
     take 72 (Simon128256KeySchedule K rk) = take 72 (Simon128256KeySchedule K rk')"
  by (simp add: ks128256_closed)

text \<open>
  C8. For every variant and every key of the variant's word count, key-schedule expansion
  writes exactly round-count words: 42, 44, 68, 69 and 72. In an array of at least that many
  words the schedule keeps the length, leaves every word from index round-count on as it
  was, and fills the first round-count words with values that do not depend on what the array
  held before: they are determined by the key and the variant.
\<close>

theorem C8_schedule_length:
  "(length Ka = 3 \<and> N_ROUNDS__64_96 \<le> length rka \<and> N_ROUNDS__64_96 \<le> length rka' \<longrightarrow>
      N_ROUNDS__64_96 = 42
      \<and> length (Simon6496KeySchedule Ka rka) = length rka
      \<and> drop 42 (Simon6496KeySchedule Ka rka) = drop 42 rka
      \<and> take 42 (Simon6496KeySchedule Ka rka) = take 42 (Simon6496KeySchedule Ka rka'))
   \<and> (length Kb = 4 \<and> N_ROUNDS__64_128 \<le> length rkb \<and> N_ROUNDS__64_128 \<le> length rkb' \<longrightarrow>
      N_ROUNDS__64_128 = 44
      \<and> length (Simon64128KeySchedule Kb rkb) = length rkb
      \<and> drop 44 (Simon64128KeySchedule Kb rkb) = drop 44 rkb
      \<and> take 44 (Simon64128KeySchedule Kb rkb) = take 44 (Simon64128KeySchedule Kb rkb'))
   \<and> (length Kc = 2 \<and> N_ROUNDS__128_128 \<le> length rkc \<and> N_ROUNDS__128_128 \<le> length rkc' \<longrightarrow>
      N_ROUNDS__128_128 = 68
      \<and> length (Simon128128KeySchedule Kc rkc) = length rkc
      \<and> drop 68 (Simon128128KeySchedule Kc rkc) = drop 68 rkc
      \<and> take 68 (Simon128128KeySchedule Kc rkc) = take 68 (Simon128128KeySchedule Kc rkc'))
   \<and> (length Kd = 3 \<and> N_ROUNDS__128_192 \<le> length rkd \<and> N_ROUNDS__128_192 \<le> length rkd' \<longrightarrow>
      N_ROUNDS__128_192 = 69
      \<and> length (Simon128192KeySchedule Kd rkd) = length rkd
      \<and> drop 69 (Simon128192KeySchedule Kd rkd) = drop 69 rkd
      \<and> take 69 (Simon128192KeySchedule Kd rkd) = take 69 (Simon128192KeySchedule Kd rkd'))
   \<and> (length Ke = 4 \<and> N_ROUNDS__128_256 \<le> length rke \<and> N_ROUNDS__128_256 \<le> length rke' \<longrightarrow>
      N_ROUNDS__128_256 = 72
      \<and> length (Simon128256KeySchedule Ke rke) = length rke
      \<and> drop 72 (Simon128256KeySchedule Ke rke) = drop 72 rke
      \<and> take 72 (Simon128256KeySchedule Ke rke) = take 72 (Simon128256KeySchedule Ke rke'))"
  by (simp add: N_ROUNDS__64_96_def N_ROUNDS__64_128_def N_ROUNDS__128_128_def N_ROUNDS__128_192_def N_ROUNDS__128_256_def
        ks6496_length ks6496_drop ks6496_take
        ks64128_length ks64128_drop ks64128_take
        ks128128_length ks128128_drop ks128128_take
        ks128192_length ks128192_drop ks128192_take
        ks128256_length ks128256_drop ks128256_take)

theorem C8_schedule_length_witness:
  "length (Simon6496KeySchedule [1, 2, 3] (replicate 42 0)) = 42
   \<and> Simon6496KeySchedule [1, 2, 3] (replicate 42 0) = Simon6496KeySchedule [1, 2, 3] (replicate 42 7)
   \<and> length (Simon64128KeySchedule [1, 2, 3, 4] (replicate 44 0)) = 44
   \<and> Simon64128KeySchedule [1, 2, 3, 4] (replicate 44 0) = Simon64128KeySchedule [1, 2, 3, 4] (replicate 44 7)
   \<and> length (Simon128128KeySchedule [1, 2] (replicate 68 0)) = 68
   \<and> Simon128128KeySchedule [1, 2] (replicate 68 0) = Simon128128KeySchedule [1, 2] (replicate 68 7)
   \<and> length (Simon128192KeySchedule [1, 2, 3] (replicate 69 0)) = 69
   \<and> Simon128192KeySchedule [1, 2, 3] (replicate 69 0) = Simon128192KeySchedule [1, 2, 3] (replicate 69 7)
   \<and> length (Simon128256KeySchedule [1, 2, 3, 4] (replicate 72 0)) = 72
   \<and> Simon128256KeySchedule [1, 2, 3, 4] (replicate 72 0) = Simon128256KeySchedule [1, 2, 3, 4] (replicate 72 7)"
  using C8_schedule_length [where Ka = "[1, 2, 3]" and rka = "replicate 42 0" and rka' = "replicate 42 7" and Kb = "[1, 2, 3, 4]" and rkb = "replicate 44 0" and rkb' = "replicate 44 7" and Kc = "[1, 2]" and rkc = "replicate 68 0" and rkc' = "replicate 68 7" and Kd = "[1, 2, 3]" and rkd = "replicate 69 0" and rkd' = "replicate 69 7" and Ke = "[1, 2, 3, 4]" and rke = "replicate 72 0" and rke' = "replicate 72 7"]
  by (simp add: N_ROUNDS__64_96_def N_ROUNDS__64_128_def N_ROUNDS__128_128_def N_ROUNDS__128_192_def N_ROUNDS__128_256_def
        ks6496_length ks64128_length ks128128_length ks128192_length ks128256_length)

text \<open>
  C10. For every variant with \<open>m\<close> key words and every key \<open>K\<close>, the first \<open>m\<close> entries
  of the expanded schedule are the \<open>m\<close> key words, unchanged and in order.
\<close>

theorem C10_key_is_prefix:
  "(length Ka = 3 \<and> length rka = 42 \<longrightarrow>
      take 3 (Simon6496KeySchedule Ka rka) = Ka)
   \<and> (length Kb = 4 \<and> length rkb = 44 \<longrightarrow>
      take 4 (Simon64128KeySchedule Kb rkb) = Kb)
   \<and> (length Kc = 2 \<and> length rkc = 68 \<longrightarrow>
      take 2 (Simon128128KeySchedule Kc rkc) = Kc)
   \<and> (length Kd = 3 \<and> length rkd = 69 \<longrightarrow>
      take 3 (Simon128192KeySchedule Kd rkd) = Kd)
   \<and> (length Ke = 4 \<and> length rke = 72 \<longrightarrow>
      take 4 (Simon128256KeySchedule Ke rke) = Ke)"
  by (simp add: ks6496_prefix ks64128_prefix ks128128_prefix ks128192_prefix ks128256_prefix)

theorem C10_key_is_prefix_witness:
  "take 3 (Simon6496KeySchedule [1, 2, 3] (replicate 42 0)) = [1, 2, 3]
   \<and> take 4 (Simon64128KeySchedule [1, 2, 3, 4] (replicate 44 0)) = [1, 2, 3, 4]
   \<and> take 2 (Simon128128KeySchedule [1, 2] (replicate 68 0)) = [1, 2]
   \<and> take 3 (Simon128192KeySchedule [1, 2, 3] (replicate 69 0)) = [1, 2, 3]
   \<and> take 4 (Simon128256KeySchedule [1, 2, 3, 4] (replicate 72 0)) = [1, 2, 3, 4]"
  using C10_key_is_prefix [where Ka = "[1, 2, 3]" and rka = "replicate 42 0" and Kb = "[1, 2, 3, 4]" and rkb = "replicate 44 0" and Kc = "[1, 2]" and rkc = "replicate 68 0" and Kd = "[1, 2, 3]" and rkd = "replicate 69 0" and Ke = "[1, 2, 3, 4]" and rke = "replicate 72 0"]
  by simp

section \<open>The structure of the key schedules\<close>

lemma closed_nth: "j < N \<Longrightarrow> (map s [0..<N] @ r) ! j = s j"
  by (simp add: nth_append)

lemma ks6496_rec:
  assumes "42 \<le> length rk" "j < 39"
  shows "Simon6496KeySchedule K rk ! (j + 3) =
     c32 XOR ucast (drop_bit j z_Simon6496 AND 1) XOR Simon6496KeySchedule K rk ! j
       XOR ROTR32 (Simon6496KeySchedule K rk ! (j + 2)) 3
       XOR ROTR32 (Simon6496KeySchedule K rk ! (j + 2)) 4"
  using assms(2) unfolding ks6496_closed [OF assms(1)]
  by (simp only: closed_nth seq3_rec g6496_def)

lemma ks64128_rec:
  assumes "44 \<le> length rk" "j < 40"
  shows "Simon64128KeySchedule K rk ! (j + 4) =
     c32 XOR ucast (drop_bit j z_Simon64128 AND 1) XOR Simon64128KeySchedule K rk ! j
       XOR ROTR32 (Simon64128KeySchedule K rk ! (j + 3)) 3
       XOR Simon64128KeySchedule K rk ! (j + 1)
       XOR ROTR32 (Simon64128KeySchedule K rk ! (j + 3)) 4
       XOR ROTR32 (Simon64128KeySchedule K rk ! (j + 1)) 1"
  using assms(2) unfolding ks64128_closed [OF assms(1)]
  by (simp only: closed_nth seq4_rec g64128_def)

lemma ks128128_rec:
  assumes "68 \<le> length rk" "j < 66"
  shows "Simon128128KeySchedule K rk ! (j + 2) =
     Simon128128KeySchedule K rk ! j XOR (c64 XOR b128128 j
       XOR ROTR64 (Simon128128KeySchedule K rk ! (j + 1)) 3
       XOR ROTR64 (Simon128128KeySchedule K rk ! (j + 1)) 4)"
  using assms(2) unfolding ks128128_closed [OF assms(1)]
  by (simp add: nth_append g128128_def)

lemma ks128192_rec:
  assumes "69 \<le> length rk" "j < 66"
  shows "Simon128192KeySchedule K rk ! (j + 3) =
     Simon128192KeySchedule K rk ! j XOR (c64 XOR b128192 j
       XOR ROTR64 (Simon128192KeySchedule K rk ! (j + 2)) 3
       XOR ROTR64 (Simon128192KeySchedule K rk ! (j + 2)) 4)"
  using assms(2) unfolding ks128192_closed [OF assms(1)]
  by (simp only: closed_nth seq3_rec g128192_def)

lemma ks128256_rec:
  assumes "72 \<le> length rk" "j < 68"
  shows "Simon128256KeySchedule K rk ! (j + 4) =
     Simon128256KeySchedule K rk ! j XOR (c64 XOR b128256 j
       XOR ROTR64 (Simon128256KeySchedule K rk ! (j + 3)) 3
       XOR ROTR64 (Simon128256KeySchedule K rk ! (j + 3)) 4
       XOR Simon128256KeySchedule K rk ! (j + 1)
       XOR ROTR64 (Simon128256KeySchedule K rk ! (j + 1)) 1)"
  using assms(2) unfolding ks128256_closed [OF assms(1)]
  by (simp only: closed_nth seq4_rec g128256_def)

lemma flip_bit_above:
  "n < k \<Longrightarrow> drop_bit n (z XOR push_bit k 1) AND 1 = drop_bit n z AND (1 :: u64)"
  by (rule bit_word_eqI) (auto simp: bit_simps)

lemma seq3_g6496_agree:
  assumes "\<forall>n<k. drop_bit n z AND 1 = drop_bit n z' AND 1"
  shows "j < k + 3 \<Longrightarrow> seq3 (g6496 z) a b c j = seq3 (g6496 z') a b c j"
proof (induction j rule: less_induct)
  case (less j)
  show ?case
  proof (cases "j < 3")
    case True
    then have "j = 0 \<or> j = 1 \<or> j = 2" by arith
    then show ?thesis by (auto simp: numeral_2_eq_2)
  next
    case False
    then obtain n where n: "j = n + 3" by (metis add.commute le_Suc_ex not_less)
    have "n < k" using less.prems n by simp
    then have "drop_bit n z AND 1 = drop_bit n z' AND 1" using assms by simp
    then have G: "g6496 z n x0 x1 x2 = g6496 z' n x0 x1 x2" for x0 x1 x2
      by (simp add: g6496_def)
    have "seq3 (g6496 z) a b c n = seq3 (g6496 z') a b c n"
      "seq3 (g6496 z) a b c (n + 1) = seq3 (g6496 z') a b c (n + 1)"
      "seq3 (g6496 z) a b c (n + 2) = seq3 (g6496 z') a b c (n + 2)"
      using less.prems n by (auto intro!: less.IH)
    then show ?thesis by (simp only: n seq3_rec G)
  qed
qed

lemma upt_split4: "map s [0..<n + 4] = map s [0..<n] @ [s n, s (n + 1), s (n + 2), s (n + 3)]"
  by (simp add: upt_add_eq_append numeral_eq_Suc)

lemma upt_split6:
  "map s [0..<n + 6] = map s [0..<n] @ [s n, s (n + 1), s (n + 2), s (n + 3), s (n + 4), s (n + 5)]"
  by (simp add: upt_add_eq_append numeral_eq_Suc)

lemma upt_split8:
  "map s [0..<n + 8] = map s [0..<n] @ [s n, s (n + 1), s (n + 2), s (n + 3), s (n + 4),
     s (n + 5), s (n + 6), s (n + 7)]"
  by (simp add: upt_add_eq_append numeral_eq_Suc)

text \<open>
  C5. For Simon128/128 (68 rounds) the schedule is emitted from a core of 64 sub-rounds,
  which alternate between \<open>A\<close> and \<open>B\<close> in emit-then-update pairs (the loop makes 32
  passes of the pair and writes entries 0 to 63), each update taking the next bit of \<open>z\<close>.
  The final 4 entries follow the closing pattern: \<open>A\<close> and \<open>B\<close> as the loop left them,
  then \<open>A\<close> and \<open>B\<close> after one more update pair whose bit is the literal 1 for \<open>A\<close>
  and the literal 0 for \<open>B\<close>, not drawn from the sequence.
\<close>

theorem C5_two_word_schedule:
  assumes "length K = 2" "length rk = 68"
  shows "Simon128128KeySchedule_loop (0, K ! 0, K ! 1, z_Simon128128, rk)
      = (Simon128128KeySchedule_body ^^ 32) (0, K ! 0, K ! 1, z_Simon128128, rk)
   \<and> (case Simon128128KeySchedule_loop (0, K ! 0, K ! 1, z_Simon128128, rk) of
        (i, A, B, z, rk1) \<Rightarrow>
          i = 64
          \<and> Simon128128KeySchedule K rk =
              take 64 rk1 @
                [A, B, A XOR (c64 XOR 1 XOR ROTR64 B 3 XOR ROTR64 B 4),
                 B XOR (c64 XOR 0
                   XOR ROTR64 (A XOR (c64 XOR 1 XOR ROTR64 B 3 XOR ROTR64 B 4)) 3
                   XOR ROTR64 (A XOR (c64 XOR 1 XOR ROTR64 B 3 XOR ROTR64 B 4)) 4)])
   \<and> (\<forall>j<64. Simon128128KeySchedule K rk ! (j + 2) =
          Simon128128KeySchedule K rk ! j XOR (c64 XOR (drop_bit j z_Simon128128 AND 1)
            XOR ROTR64 (Simon128128KeySchedule K rk ! (j + 1)) 3
            XOR ROTR64 (Simon128128KeySchedule K rk ! (j + 1)) 4))"
proof -
  define s where "s = seq2 g128128 (K ! 0) (K ! 1)"
  have L: "Simon128128KeySchedule_loop (0, K ! 0, K ! 1, z_Simon128128, rk)
       = (64, s 64, s 65, drop_bit 64 z_Simon128128, map s [0..<64] @ drop 64 rk)"
    using assms(2) by (intro ks128128_loop_closed [OF s_def]) simp
  have S: "Simon128128KeySchedule K rk = map s [0..<64] @ [s 64, s 65, s 66, s 67]"
    using assms(2) upt_split4 [of s 64] by (simp add: ks128128_closed s_def)
  have A: "s 64 XOR (c64 XOR 1 XOR ROTR64 (s 65) 3 XOR ROTR64 (s 65) 4) = s 66"
    using seq2.simps(3) [of g128128 "K ! 0" "K ! 1" 64]
    by (simp add: s_def g128128_def b128128_def)
  have B: "s 65 XOR (c64 XOR 0 XOR ROTR64 (s 66) 3 XOR ROTR64 (s 66) 4) = s 67"
    using seq2.simps(3) [of g128128 "K ! 0" "K ! 1" 65]
    by (simp add: s_def g128128_def b128128_def)
  have 1: "Simon128128KeySchedule_loop (0, K ! 0, K ! 1, z_Simon128128, rk)
      = (Simon128128KeySchedule_body ^^ 32) (0, K ! 0, K ! 1, z_Simon128128, rk)"
    by (rule ks128128_loop_funpow) simp
  have 2: "case Simon128128KeySchedule_loop (0, K ! 0, K ! 1, z_Simon128128, rk) of
        (i, A, B, z, rk1) \<Rightarrow>
          i = 64
          \<and> Simon128128KeySchedule K rk =
              take 64 rk1 @
                [A, B, A XOR (c64 XOR 1 XOR ROTR64 B 3 XOR ROTR64 B 4),
                 B XOR (c64 XOR 0
                   XOR ROTR64 (A XOR (c64 XOR 1 XOR ROTR64 B 3 XOR ROTR64 B 4)) 3
                   XOR ROTR64 (A XOR (c64 XOR 1 XOR ROTR64 B 3 XOR ROTR64 B 4)) 4)]"
    unfolding L prod.case A B S by simp
  have 3: "\<forall>j<64. Simon128128KeySchedule K rk ! (j + 2) =
          Simon128128KeySchedule K rk ! j XOR (c64 XOR (drop_bit j z_Simon128128 AND 1)
            XOR ROTR64 (Simon128128KeySchedule K rk ! (j + 1)) 3
            XOR ROTR64 (Simon128128KeySchedule K rk ! (j + 1)) 4)"
  proof (intro allI impI)
    fix j :: nat assume j: "j < 64"
    then have "b128128 j = drop_bit j z_Simon128128 AND 1" by (simp add: b128128_def)
    then show "Simon128128KeySchedule K rk ! (j + 2) =
          Simon128128KeySchedule K rk ! j XOR (c64 XOR (drop_bit j z_Simon128128 AND 1)
            XOR ROTR64 (Simon128128KeySchedule K rk ! (j + 1)) 3
            XOR ROTR64 (Simon128128KeySchedule K rk ! (j + 1)) 4)"
      using ks128128_rec [of rk j K] assms(2) j by simp
  qed
  from 1 2 3 show ?thesis by blast
qed

theorem C5_two_word_schedule_witness:
  "Simon128128KeySchedule_loop (0, [1, 2] ! 0, [1, 2] ! 1, z_Simon128128, (replicate 68 0))
      = (Simon128128KeySchedule_body ^^ 32) (0, [1, 2] ! 0, [1, 2] ! 1, z_Simon128128, (replicate 68 0))
   \<and> (case Simon128128KeySchedule_loop (0, [1, 2] ! 0, [1, 2] ! 1, z_Simon128128, (replicate 68 0)) of
        (i, A, B, z, rk1) \<Rightarrow>
          i = 64
          \<and> Simon128128KeySchedule [1, 2] (replicate 68 0) =
              take 64 rk1 @
                [A, B, A XOR (c64 XOR 1 XOR ROTR64 B 3 XOR ROTR64 B 4),
                 B XOR (c64 XOR 0
                   XOR ROTR64 (A XOR (c64 XOR 1 XOR ROTR64 B 3 XOR ROTR64 B 4)) 3
                   XOR ROTR64 (A XOR (c64 XOR 1 XOR ROTR64 B 3 XOR ROTR64 B 4)) 4)])
   \<and> (Simon128128KeySchedule [1, 2] (replicate 68 0) ! ((5::nat) + 2) =
          Simon128128KeySchedule [1, 2] (replicate 68 0) ! (5::nat) XOR (c64 XOR (drop_bit (5::nat) z_Simon128128 AND 1)
            XOR ROTR64 (Simon128128KeySchedule [1, 2] (replicate 68 0) ! ((5::nat) + 1)) 3
            XOR ROTR64 (Simon128128KeySchedule [1, 2] (replicate 68 0) ! ((5::nat) + 1)) 4))"
proof -
  have T: "Simon128128KeySchedule_loop (0, [1, 2] ! 0, [1, 2] ! 1, z_Simon128128, (replicate 68 0))
      = (Simon128128KeySchedule_body ^^ 32) (0, [1, 2] ! 0, [1, 2] ! 1, z_Simon128128, (replicate 68 0))
   \<and> (case Simon128128KeySchedule_loop (0, [1, 2] ! 0, [1, 2] ! 1, z_Simon128128, (replicate 68 0)) of
        (i, A, B, z, rk1) \<Rightarrow>
          i = 64
          \<and> Simon128128KeySchedule [1, 2] (replicate 68 0) =
              take 64 rk1 @
                [A, B, A XOR (c64 XOR 1 XOR ROTR64 B 3 XOR ROTR64 B 4),
                 B XOR (c64 XOR 0
                   XOR ROTR64 (A XOR (c64 XOR 1 XOR ROTR64 B 3 XOR ROTR64 B 4)) 3
                   XOR ROTR64 (A XOR (c64 XOR 1 XOR ROTR64 B 3 XOR ROTR64 B 4)) 4)])
   \<and> (\<forall>j<64. Simon128128KeySchedule [1, 2] (replicate 68 0) ! (j + 2) =
          Simon128128KeySchedule [1, 2] (replicate 68 0) ! j XOR (c64 XOR (drop_bit j z_Simon128128 AND 1)
            XOR ROTR64 (Simon128128KeySchedule [1, 2] (replicate 68 0) ! (j + 1)) 3
            XOR ROTR64 (Simon128128KeySchedule [1, 2] (replicate 68 0) ! (j + 1)) 4))"
    by (rule C5_two_word_schedule; simp)
  have l1: "(5::nat) < 64" by simp
  show ?thesis
    by (intro conjI)
      (rule T [THEN conjunct1],
       rule T [THEN conjunct2, THEN conjunct1],
       rule T [THEN conjunct2, THEN conjunct2, rule_format, OF l1])
qed

lemma xor_cancel3: "(a XOR u XOR x = a XOR v XOR x) = (u = (v :: 'a :: len word))"
proof
  assume "a XOR u XOR x = a XOR v XOR x"
  then have "a XOR (a XOR u XOR x) XOR x = a XOR (a XOR v XOR x) XOR x" by simp
  then show "u = v" by (simp add: xor.assoc xor.commute xor.left_commute)
qed simp

lemma xor_one_neq: "a XOR x \<noteq> a XOR 1 XOR (x :: 'a :: len word)"
  using xor_cancel3 [of a 0 x 1] by simp

text \<open>
  C3, as amended. The two variants with 3 key words differ. Simon128/192 cycles through
  \<open>A\<close>, \<open>B\<close>, \<open>C\<close> with bits drawn from \<open>z\<close> for 21 passes, until 63 (69 minus 6)
  entries are written; the closing statements then produce the final 6 entries: \<open>A\<close>,
  \<open>B\<close>, \<open>C\<close> as the loop left them, and \<open>A\<close>, \<open>B\<close>, \<open>C\<close> after one update each with
  the literal bits 1, 0 and 1. Simon64/96 has no registers and no closing statements:
  every entry from index 3 to 41 is computed from the entries three and one before it with
  the next bit of \<open>z\<close>.
\<close>

theorem C3_three_word_schedules:
  assumes "length Ka = 3" "length rka = 42" "length Kd = 3" "length rkd = 69"
  shows "(\<forall>j<39. Simon6496KeySchedule Ka rka ! (j + 3) =
        c32 XOR ucast (drop_bit j z_Simon6496 AND 1) XOR Simon6496KeySchedule Ka rka ! j
          XOR ROTR32 (Simon6496KeySchedule Ka rka ! (j + 2)) 3
          XOR ROTR32 (Simon6496KeySchedule Ka rka ! (j + 2)) 4)
   \<and> Simon128192KeySchedule_loop (0, Kd ! 0, Kd ! 1, Kd ! 2, z_Simon128192, rkd)
      = (Simon128192KeySchedule_body ^^ 21)
          (0, Kd ! 0, Kd ! 1, Kd ! 2, z_Simon128192, rkd)
   \<and> (case Simon128192KeySchedule_loop
              (0, Kd ! 0, Kd ! 1, Kd ! 2, z_Simon128192, rkd) of
        (i, A, B, C, z, rk1) \<Rightarrow>
          let A' = A XOR (c64 XOR 1 XOR ROTR64 C 3 XOR ROTR64 C 4);
              B' = B XOR (c64 XOR 0 XOR ROTR64 A' 3 XOR ROTR64 A' 4);
              C' = C XOR (c64 XOR 1 XOR ROTR64 B' 3 XOR ROTR64 B' 4)
          in i = 63
             \<and> Simon128192KeySchedule Kd rkd = take 63 rk1 @ [A, B, C, A', B', C'])
   \<and> (\<forall>j<63. Simon128192KeySchedule Kd rkd ! (j + 3) =
          Simon128192KeySchedule Kd rkd ! j XOR (c64 XOR (drop_bit j z_Simon128192 AND 1)
            XOR ROTR64 (Simon128192KeySchedule Kd rkd ! (j + 2)) 3
            XOR ROTR64 (Simon128192KeySchedule Kd rkd ! (j + 2)) 4))"
proof -
  define s where "s = seq3 g128192 (Kd ! 0) (Kd ! 1) (Kd ! 2)"
  have L: "Simon128192KeySchedule_loop (0, Kd ! 0, Kd ! 1, Kd ! 2, z_Simon128192, rkd)
       = (63, s 63, s 64, s 65, drop_bit 63 z_Simon128192, map s [0..<63] @ drop 63 rkd)"
    using assms(4) by (intro ks128192_loop_closed [OF s_def]) simp
  have S: "Simon128192KeySchedule Kd rkd = map s [0..<63] @ [s 63, s 64, s 65, s 66, s 67, s 68]"
    using assms(4) upt_split6 [of s 63] by (simp add: ks128192_closed s_def)
  have A: "s 63 XOR (c64 XOR 1 XOR ROTR64 (s 65) 3 XOR ROTR64 (s 65) 4) = s 66"
    using seq3_rec [of g128192 "Kd ! 0" "Kd ! 1" "Kd ! 2" 63]
    by (simp add: s_def g128192_def b128192_def)
  have B: "s 64 XOR (c64 XOR 0 XOR ROTR64 (s 66) 3 XOR ROTR64 (s 66) 4) = s 67"
    using seq3_rec [of g128192 "Kd ! 0" "Kd ! 1" "Kd ! 2" 64]
    by (simp add: s_def g128192_def b128192_def)
  have C: "s 65 XOR (c64 XOR 1 XOR ROTR64 (s 67) 3 XOR ROTR64 (s 67) 4) = s 68"
    using seq3_rec [of g128192 "Kd ! 0" "Kd ! 1" "Kd ! 2" 65]
    by (simp add: s_def g128192_def b128192_def)
  have 0: "\<forall>j<39. Simon6496KeySchedule Ka rka ! (j + 3) =
        c32 XOR ucast (drop_bit j z_Simon6496 AND 1) XOR Simon6496KeySchedule Ka rka ! j
          XOR ROTR32 (Simon6496KeySchedule Ka rka ! (j + 2)) 3
          XOR ROTR32 (Simon6496KeySchedule Ka rka ! (j + 2)) 4"
    using ks6496_rec [of rka _ Ka] assms(2) by simp
  have 1: "Simon128192KeySchedule_loop (0, Kd ! 0, Kd ! 1, Kd ! 2, z_Simon128192, rkd)
      = (Simon128192KeySchedule_body ^^ 21)
          (0, Kd ! 0, Kd ! 1, Kd ! 2, z_Simon128192, rkd)"
    by (rule ks128192_loop_funpow) simp
  have 2: "case Simon128192KeySchedule_loop
              (0, Kd ! 0, Kd ! 1, Kd ! 2, z_Simon128192, rkd) of
        (i, A, B, C, z, rk1) \<Rightarrow>
          let A' = A XOR (c64 XOR 1 XOR ROTR64 C 3 XOR ROTR64 C 4);
              B' = B XOR (c64 XOR 0 XOR ROTR64 A' 3 XOR ROTR64 A' 4);
              C' = C XOR (c64 XOR 1 XOR ROTR64 B' 3 XOR ROTR64 B' 4)
          in i = 63
             \<and> Simon128192KeySchedule Kd rkd = take 63 rk1 @ [A, B, C, A', B', C']"
    unfolding L prod.case Let_def A B C S by simp
  have 3: "\<forall>j<63. Simon128192KeySchedule Kd rkd ! (j + 3) =
          Simon128192KeySchedule Kd rkd ! j XOR (c64 XOR (drop_bit j z_Simon128192 AND 1)
            XOR ROTR64 (Simon128192KeySchedule Kd rkd ! (j + 2)) 3
            XOR ROTR64 (Simon128192KeySchedule Kd rkd ! (j + 2)) 4)"
  proof (intro allI impI)
    fix j :: nat assume j: "j < 63"
    then have "b128192 j = drop_bit j z_Simon128192 AND 1" by (simp add: b128192_def)
    then show "Simon128192KeySchedule Kd rkd ! (j + 3) =
          Simon128192KeySchedule Kd rkd ! j XOR (c64 XOR (drop_bit j z_Simon128192 AND 1)
            XOR ROTR64 (Simon128192KeySchedule Kd rkd ! (j + 2)) 3
            XOR ROTR64 (Simon128192KeySchedule Kd rkd ! (j + 2)) 4)"
      using ks128192_rec [of rkd j Kd] assms(4) j by simp
  qed
  from 0 1 2 3 show ?thesis by blast
qed

theorem C3_three_word_schedules_witness:
  "(Simon6496KeySchedule [1, 2, 3] (replicate 42 0) ! ((5::nat) + 3) =
        c32 XOR ucast (drop_bit (5::nat) z_Simon6496 AND 1) XOR Simon6496KeySchedule [1, 2, 3] (replicate 42 0) ! (5::nat)
          XOR ROTR32 (Simon6496KeySchedule [1, 2, 3] (replicate 42 0) ! ((5::nat) + 2)) 3
          XOR ROTR32 (Simon6496KeySchedule [1, 2, 3] (replicate 42 0) ! ((5::nat) + 2)) 4)
   \<and> Simon128192KeySchedule_loop (0, [1, 2, 3] ! 0, [1, 2, 3] ! 1, [1, 2, 3] ! 2, z_Simon128192, (replicate 69 0))
      = (Simon128192KeySchedule_body ^^ 21)
          (0, [1, 2, 3] ! 0, [1, 2, 3] ! 1, [1, 2, 3] ! 2, z_Simon128192, (replicate 69 0))
   \<and> (case Simon128192KeySchedule_loop
              (0, [1, 2, 3] ! 0, [1, 2, 3] ! 1, [1, 2, 3] ! 2, z_Simon128192, (replicate 69 0)) of
        (i, A, B, C, z, rk1) \<Rightarrow>
          let A' = A XOR (c64 XOR 1 XOR ROTR64 C 3 XOR ROTR64 C 4);
              B' = B XOR (c64 XOR 0 XOR ROTR64 A' 3 XOR ROTR64 A' 4);
              C' = C XOR (c64 XOR 1 XOR ROTR64 B' 3 XOR ROTR64 B' 4)
          in i = 63
             \<and> Simon128192KeySchedule [1, 2, 3] (replicate 69 0) = take 63 rk1 @ [A, B, C, A', B', C'])
   \<and> (Simon128192KeySchedule [1, 2, 3] (replicate 69 0) ! ((5::nat) + 3) =
          Simon128192KeySchedule [1, 2, 3] (replicate 69 0) ! (5::nat) XOR (c64 XOR (drop_bit (5::nat) z_Simon128192 AND 1)
            XOR ROTR64 (Simon128192KeySchedule [1, 2, 3] (replicate 69 0) ! ((5::nat) + 2)) 3
            XOR ROTR64 (Simon128192KeySchedule [1, 2, 3] (replicate 69 0) ! ((5::nat) + 2)) 4))"
proof -
  have T: "(\<forall>j<39. Simon6496KeySchedule [1, 2, 3] (replicate 42 0) ! (j + 3) =
        c32 XOR ucast (drop_bit j z_Simon6496 AND 1) XOR Simon6496KeySchedule [1, 2, 3] (replicate 42 0) ! j
          XOR ROTR32 (Simon6496KeySchedule [1, 2, 3] (replicate 42 0) ! (j + 2)) 3
          XOR ROTR32 (Simon6496KeySchedule [1, 2, 3] (replicate 42 0) ! (j + 2)) 4)
   \<and> Simon128192KeySchedule_loop (0, [1, 2, 3] ! 0, [1, 2, 3] ! 1, [1, 2, 3] ! 2, z_Simon128192, (replicate 69 0))
      = (Simon128192KeySchedule_body ^^ 21)
          (0, [1, 2, 3] ! 0, [1, 2, 3] ! 1, [1, 2, 3] ! 2, z_Simon128192, (replicate 69 0))
   \<and> (case Simon128192KeySchedule_loop
              (0, [1, 2, 3] ! 0, [1, 2, 3] ! 1, [1, 2, 3] ! 2, z_Simon128192, (replicate 69 0)) of
        (i, A, B, C, z, rk1) \<Rightarrow>
          let A' = A XOR (c64 XOR 1 XOR ROTR64 C 3 XOR ROTR64 C 4);
              B' = B XOR (c64 XOR 0 XOR ROTR64 A' 3 XOR ROTR64 A' 4);
              C' = C XOR (c64 XOR 1 XOR ROTR64 B' 3 XOR ROTR64 B' 4)
          in i = 63
             \<and> Simon128192KeySchedule [1, 2, 3] (replicate 69 0) = take 63 rk1 @ [A, B, C, A', B', C'])
   \<and> (\<forall>j<63. Simon128192KeySchedule [1, 2, 3] (replicate 69 0) ! (j + 3) =
          Simon128192KeySchedule [1, 2, 3] (replicate 69 0) ! j XOR (c64 XOR (drop_bit j z_Simon128192 AND 1)
            XOR ROTR64 (Simon128192KeySchedule [1, 2, 3] (replicate 69 0) ! (j + 2)) 3
            XOR ROTR64 (Simon128192KeySchedule [1, 2, 3] (replicate 69 0) ! (j + 2)) 4))"
    by (rule C3_three_word_schedules; simp)
  have l1: "(5::nat) < 39" by simp
  have l2: "(5::nat) < 63" by simp
  show ?thesis
    by (intro conjI)
      (rule T [THEN conjunct1, rule_format, OF l1],
       rule T [THEN conjunct2, THEN conjunct1],
       rule T [THEN conjunct2, THEN conjunct2, THEN conjunct1],
       rule T [THEN conjunct2, THEN conjunct2, THEN conjunct2, rule_format, OF l2])
qed

text \<open>
  The claim as stated gives both variants fixed-bit closing updates for the final 5 entries.
  In Simon64/96 the last entry is drawn from the sequence: with the same key words, flipping
  bit 38 of the sequence word alone changes entry 41. In Simon128/192 the loop stops at
  \<open>i = 63\<close> with the last 6 words of the array not yet written.
\<close>

theorem C3_counterexample:
  "Simon6496KeySchedule_loop 3 z_Simon6496 ([1, 2, 3] @ replicate 39 0) ! 41
     \<noteq> Simon6496KeySchedule_loop 3 (z_Simon6496 XOR push_bit 38 1)
          ([1, 2, 3] @ replicate 39 0) ! 41
   \<and> (case Simon128192KeySchedule_loop (0, 1, 2, 3, z_Simon128192, replicate 69 0) of
        (i, A, B, C, z, rk1) \<Rightarrow> i = 63 \<and> drop 63 rk1 = replicate 6 0)"
proof -
  define z' where "z' = z_Simon6496 XOR push_bit 38 1"
  define s where "s = seq3 (g6496 z_Simon6496) 1 2 3"
  define s' where "s' = seq3 (g6496 z') 1 2 3"
  define rk3 :: "u32 list" where "rk3 = [1, 2, 3] @ replicate 39 0"
  have i3: "map s [0..<3] = [1, 2, 3]" "map s' [0..<3] = [1, 2, 3]"
    by (simp_all add: s_def s'_def numeral_3_eq_3)
  have E: "Simon6496KeySchedule_loop 3 z_Simon6496 rk3 = map s [0..<42] @ drop 42 rk3"
    by (rule ks6496_loop [OF s_def]) (simp_all add: rk3_def i3)
  have E': "Simon6496KeySchedule_loop 3 z' rk3 = map s' [0..<42] @ drop 42 rk3"
    by (rule ks6496_loop [OF s'_def]) (simp_all add: rk3_def i3)
  have fl: "\<forall>n<38. drop_bit n z_Simon6496 AND 1 = drop_bit n z' AND 1"
  proof (intro allI impI)
    fix n :: nat assume "n < 38"
    then show "drop_bit n z_Simon6496 AND 1 = drop_bit n z' AND 1"
      unfolding z'_def by (rule flip_bit_above [symmetric])
  qed
  have agree: "s j = s' j" if "j < 41" for j
    unfolding s_def s'_def
    by (rule seq3_g6496_agree [OF fl]) (use that in simp)
  have b: "drop_bit 38 z_Simon6496 AND 1 = 0" "drop_bit 38 z' AND 1 = 1"
    by (simp_all add: z'_def z_Simon6496_def)
  have "s 41 = g6496 z_Simon6496 38 (s 38) (s 39) (s 40)"
    using seq3_rec [of "g6496 z_Simon6496" 1 2 3 38] by (simp add: s_def)
  moreover have "s' 41 = g6496 z' 38 (s 38) (s 39) (s 40)"
    using seq3_rec [of "g6496 z'" 1 2 3 38] by (simp add: s'_def [symmetric] agree)
  ultimately have "s 41 \<noteq> s' 41"
    by (simp add: g6496_def b xor_one_neq)
  then have 1: "Simon6496KeySchedule_loop 3 z_Simon6496 rk3 ! 41
      \<noteq> Simon6496KeySchedule_loop 3 z' rk3 ! 41"
    unfolding E E' by (simp add: nth_append)
  define t where "t = seq3 g128192 1 2 3"
  have "Simon128192KeySchedule_loop (0, 1, 2, 3, z_Simon128192, replicate 69 0)
       = (63, t 63, t 64, t 65, drop_bit 63 z_Simon128192,
          map t [0..<63] @ drop 63 (replicate 69 0))"
    by (rule ks128192_loop_closed [OF t_def]) simp
  then have 2: "case Simon128192KeySchedule_loop (0, 1, 2, 3, z_Simon128192, replicate 69 0) of
        (i, A, B, C, z, rk1) \<Rightarrow> i = 63 \<and> drop 63 rk1 = replicate 6 0"
    by simp
  from 1 2 show ?thesis unfolding rk3_def z'_def by blast
qed

lemma ks6496_nth_key:
  "length K = 3 \<Longrightarrow> 42 \<le> length rk \<Longrightarrow> j < 3 \<Longrightarrow> Simon6496KeySchedule K rk ! j = K ! j"
  using ks6496_prefix [of K rk] nth_take [of j 3 "Simon6496KeySchedule K rk"] by simp

lemma ks64128_nth_key:
  "length K = 4 \<Longrightarrow> 44 \<le> length rk \<Longrightarrow> j < 4 \<Longrightarrow> Simon64128KeySchedule K rk ! j = K ! j"
  using ks64128_prefix [of K rk] nth_take [of j 4 "Simon64128KeySchedule K rk"] by simp

lemma ks128128_nth_key:
  "length K = 2 \<Longrightarrow> 68 \<le> length rk \<Longrightarrow> j < 2 \<Longrightarrow> Simon128128KeySchedule K rk ! j = K ! j"
  using ks128128_prefix [of K rk] nth_take [of j 2 "Simon128128KeySchedule K rk"] by simp

lemma ks128192_nth_key:
  "length K = 3 \<Longrightarrow> 69 \<le> length rk \<Longrightarrow> j < 3 \<Longrightarrow> Simon128192KeySchedule K rk ! j = K ! j"
  using ks128192_prefix [of K rk] nth_take [of j 3 "Simon128192KeySchedule K rk"] by simp

lemma ks128256_nth_key:
  "length K = 4 \<Longrightarrow> 72 \<le> length rk \<Longrightarrow> j < 4 \<Longrightarrow> Simon128256KeySchedule K rk ! j = K ! j"
  using ks128256_prefix [of K rk] nth_take [of j 4 "Simon128256KeySchedule K rk"] by simp

lemma ks6496_loop_rec:
  assumes "42 \<le> length rk"
  shows "\<forall>j<39. Simon6496KeySchedule K rk ! (j + 3) =
        c32 XOR ucast (drop_bit j z_Simon6496 AND 1) XOR Simon6496KeySchedule K rk ! j
          XOR ROTR32 (Simon6496KeySchedule K rk ! (j + 2)) 3
          XOR ROTR32 (Simon6496KeySchedule K rk ! (j + 2)) 4"
  using ks6496_rec [OF assms, of _ K] by simp

lemma ks64128_loop_rec:
  assumes "44 \<le> length rk"
  shows "\<forall>j<40. Simon64128KeySchedule K rk ! (j + 4) =
        c32 XOR ucast (drop_bit j z_Simon64128 AND 1) XOR Simon64128KeySchedule K rk ! j
          XOR ROTR32 (Simon64128KeySchedule K rk ! (j + 3)) 3
          XOR Simon64128KeySchedule K rk ! (j + 1)
          XOR ROTR32 (Simon64128KeySchedule K rk ! (j + 3)) 4
          XOR ROTR32 (Simon64128KeySchedule K rk ! (j + 1)) 1"
  using ks64128_rec [OF assms, of _ K] by simp

lemma ks128128_loop_rec:
  assumes "68 \<le> length rk"
  shows "\<forall>j<64. Simon128128KeySchedule K rk ! (j + 2) =
        Simon128128KeySchedule K rk ! j XOR (c64 XOR (drop_bit j z_Simon128128 AND 1)
          XOR ROTR64 (Simon128128KeySchedule K rk ! (j + 1)) 3
          XOR ROTR64 (Simon128128KeySchedule K rk ! (j + 1)) 4)"
proof (intro allI impI)
  fix j :: nat assume j: "j < 64"
  then have "b128128 j = drop_bit j z_Simon128128 AND 1" by (simp add: b128128_def)
  then show "Simon128128KeySchedule K rk ! (j + 2) =
        Simon128128KeySchedule K rk ! j XOR (c64 XOR (drop_bit j z_Simon128128 AND 1)
          XOR ROTR64 (Simon128128KeySchedule K rk ! (j + 1)) 3
          XOR ROTR64 (Simon128128KeySchedule K rk ! (j + 1)) 4)"
    using ks128128_rec [OF assms, of j K] j by simp
qed

lemma ks128192_loop_rec:
  assumes "69 \<le> length rk"
  shows "\<forall>j<63. Simon128192KeySchedule K rk ! (j + 3) =
        Simon128192KeySchedule K rk ! j XOR (c64 XOR (drop_bit j z_Simon128192 AND 1)
          XOR ROTR64 (Simon128192KeySchedule K rk ! (j + 2)) 3
          XOR ROTR64 (Simon128192KeySchedule K rk ! (j + 2)) 4)"
proof (intro allI impI)
  fix j :: nat assume j: "j < 63"
  then have "b128192 j = drop_bit j z_Simon128192 AND 1" by (simp add: b128192_def)
  then show "Simon128192KeySchedule K rk ! (j + 3) =
        Simon128192KeySchedule K rk ! j XOR (c64 XOR (drop_bit j z_Simon128192 AND 1)
          XOR ROTR64 (Simon128192KeySchedule K rk ! (j + 2)) 3
          XOR ROTR64 (Simon128192KeySchedule K rk ! (j + 2)) 4)"
    using ks128192_rec [OF assms, of j K] j by simp
qed

lemma ks128256_loop_rec:
  assumes "72 \<le> length rk"
  shows "\<forall>j<64. Simon128256KeySchedule K rk ! (j + 4) =
        Simon128256KeySchedule K rk ! j XOR (c64 XOR (drop_bit j z_Simon128256 AND 1)
          XOR ROTR64 (Simon128256KeySchedule K rk ! (j + 3)) 3
          XOR ROTR64 (Simon128256KeySchedule K rk ! (j + 3)) 4
          XOR Simon128256KeySchedule K rk ! (j + 1)
          XOR ROTR64 (Simon128256KeySchedule K rk ! (j + 1)) 1)"
proof (intro allI impI)
  fix j :: nat assume j: "j < 64"
  then have "b128256 j = drop_bit j z_Simon128256 AND 1" by (simp add: b128256_def)
  then show "Simon128256KeySchedule K rk ! (j + 4) =
        Simon128256KeySchedule K rk ! j XOR (c64 XOR (drop_bit j z_Simon128256 AND 1)
          XOR ROTR64 (Simon128256KeySchedule K rk ! (j + 3)) 3
          XOR ROTR64 (Simon128256KeySchedule K rk ! (j + 3)) 4
          XOR Simon128256KeySchedule K rk ! (j + 1)
          XOR ROTR64 (Simon128256KeySchedule K rk ! (j + 1)) 1)"
    using ks128256_rec [OF assms, of j K] j by simp
qed

lemma ks128256_closing_rec:
  assumes "72 \<le> length rk"
  shows "\<forall>j. 64 \<le> j \<and> j < 68 \<longrightarrow> Simon128256KeySchedule K rk ! (j + 4) =
        Simon128256KeySchedule K rk ! j XOR (c64 XOR (if j = 65 then 1 else 0)
          XOR ROTR64 (Simon128256KeySchedule K rk ! (j + 3)) 3
          XOR ROTR64 (Simon128256KeySchedule K rk ! (j + 3)) 4
          XOR Simon128256KeySchedule K rk ! (j + 1)
          XOR ROTR64 (Simon128256KeySchedule K rk ! (j + 1)) 1)"
proof (intro allI impI)
  fix j :: nat assume j: "64 \<le> j \<and> j < 68"
  then have "b128256 j = (if j = 65 then 1 else 0)" by (simp add: b128256_def)
  then show "Simon128256KeySchedule K rk ! (j + 4) =
        Simon128256KeySchedule K rk ! j XOR (c64 XOR (if j = 65 then 1 else 0)
          XOR ROTR64 (Simon128256KeySchedule K rk ! (j + 3)) 3
          XOR ROTR64 (Simon128256KeySchedule K rk ! (j + 3)) 4
          XOR Simon128256KeySchedule K rk ! (j + 1)
          XOR ROTR64 (Simon128256KeySchedule K rk ! (j + 1)) 1)"
    using ks128256_rec [OF assms, of j K] j by simp
qed

lemma ks64128_first:
  assumes "length K = 4" "44 \<le> length rk"
  shows "Simon64128KeySchedule K rk ! 4 =
     c32 XOR ucast (z_Simon64128 AND 1) XOR K ! 0 XOR ROTR32 (K ! 3) 3 XOR K ! 1
       XOR ROTR32 (K ! 3) 4 XOR ROTR32 (K ! 1) 1"
  using ks64128_rec [OF assms(2), of 0 K] ks64128_nth_key [OF assms]
  by simp

lemma ks128256_first:
  assumes "length K = 4" "72 \<le> length rk"
  shows "Simon128256KeySchedule K rk ! 4 =
     K ! 0 XOR (c64 XOR (z_Simon128256 AND 1) XOR ROTR64 (K ! 3) 3 XOR ROTR64 (K ! 3) 4
       XOR K ! 1 XOR ROTR64 (K ! 1) 1)"
  using ks128256_rec [OF assms(2), of 0 K] ks128256_nth_key [OF assms]
  by (simp add: b128256_def)

text \<open>
  C4, as amended. For the two variants with 4 key words, each sub-round of the key schedule
  emits one register and replaces it by itself (the entry four before the new one) XORed
  with the constant, with the sub-round's bit, with \<open>rotr(reg_minus1,3) ^ rotr(reg_minus1,4)\<close>
  and with \<open>reg_minus3 ^ rotr(reg_minus3,1)\<close>: the update mixes two other registers, the
  one emitted just before and the one emitted three before. The register two back does not
  enter: changing it leaves the first computed entry as it was. The bit is bit \<open>j\<close> of \<open>z\<close>
  in the loops; in the four closing updates of Simon128/256 it is the literal 0, 1, 0, 0.
\<close>

theorem C4_four_word_schedules:
  assumes "length Kb = 4" "length rkb = 44" "length Ke = 4" "length rke = 72"
  shows "(\<forall>j<40. Simon64128KeySchedule Kb rkb ! (j + 4) =
        c32 XOR ucast (drop_bit j z_Simon64128 AND 1) XOR Simon64128KeySchedule Kb rkb ! j
          XOR ROTR32 (Simon64128KeySchedule Kb rkb ! (j + 3)) 3
          XOR Simon64128KeySchedule Kb rkb ! (j + 1)
          XOR ROTR32 (Simon64128KeySchedule Kb rkb ! (j + 3)) 4
          XOR ROTR32 (Simon64128KeySchedule Kb rkb ! (j + 1)) 1)
   \<and> (\<forall>j<64. Simon128256KeySchedule Ke rke ! (j + 4) =
        Simon128256KeySchedule Ke rke ! j XOR (c64 XOR (drop_bit j z_Simon128256 AND 1)
          XOR ROTR64 (Simon128256KeySchedule Ke rke ! (j + 3)) 3
          XOR ROTR64 (Simon128256KeySchedule Ke rke ! (j + 3)) 4
          XOR Simon128256KeySchedule Ke rke ! (j + 1)
          XOR ROTR64 (Simon128256KeySchedule Ke rke ! (j + 1)) 1))
   \<and> (\<forall>j. 64 \<le> j \<and> j < 68 \<longrightarrow> Simon128256KeySchedule Ke rke ! (j + 4) =
        Simon128256KeySchedule Ke rke ! j XOR (c64 XOR (if j = 65 then 1 else 0)
          XOR ROTR64 (Simon128256KeySchedule Ke rke ! (j + 3)) 3
          XOR ROTR64 (Simon128256KeySchedule Ke rke ! (j + 3)) 4
          XOR Simon128256KeySchedule Ke rke ! (j + 1)
          XOR ROTR64 (Simon128256KeySchedule Ke rke ! (j + 1)) 1))
   \<and> Simon64128KeySchedule (Kb[2 := v]) rkb ! 4 = Simon64128KeySchedule Kb rkb ! 4
   \<and> Simon128256KeySchedule (Ke[2 := v']) rke ! 4 = Simon128256KeySchedule Ke rke ! 4"
proof -
  have 1: "Simon64128KeySchedule (Kb[2 := v]) rkb ! 4 = Simon64128KeySchedule Kb rkb ! 4"
    using assms(1,2) by (simp add: ks64128_first)
  have 2: "Simon128256KeySchedule (Ke[2 := v']) rke ! 4 = Simon128256KeySchedule Ke rke ! 4"
    using assms(3,4) by (simp add: ks128256_first)
  show ?thesis
    using ks64128_loop_rec [of rkb Kb] ks128256_loop_rec [of rke Ke]
      ks128256_closing_rec [of rke Ke] assms(2,4) 1 2
    by simp
qed

theorem C4_four_word_schedules_witness:
  "(Simon64128KeySchedule [1, 2, 3, 4] (replicate 44 0) ! ((5::nat) + 4) =
        c32 XOR ucast (drop_bit (5::nat) z_Simon64128 AND 1) XOR Simon64128KeySchedule [1, 2, 3, 4] (replicate 44 0) ! (5::nat)
          XOR ROTR32 (Simon64128KeySchedule [1, 2, 3, 4] (replicate 44 0) ! ((5::nat) + 3)) 3
          XOR Simon64128KeySchedule [1, 2, 3, 4] (replicate 44 0) ! ((5::nat) + 1)
          XOR ROTR32 (Simon64128KeySchedule [1, 2, 3, 4] (replicate 44 0) ! ((5::nat) + 3)) 4
          XOR ROTR32 (Simon64128KeySchedule [1, 2, 3, 4] (replicate 44 0) ! ((5::nat) + 1)) 1)
   \<and> (Simon128256KeySchedule [1, 2, 3, 4] (replicate 72 0) ! ((5::nat) + 4) =
        Simon128256KeySchedule [1, 2, 3, 4] (replicate 72 0) ! (5::nat) XOR (c64 XOR (drop_bit (5::nat) z_Simon128256 AND 1)
          XOR ROTR64 (Simon128256KeySchedule [1, 2, 3, 4] (replicate 72 0) ! ((5::nat) + 3)) 3
          XOR ROTR64 (Simon128256KeySchedule [1, 2, 3, 4] (replicate 72 0) ! ((5::nat) + 3)) 4
          XOR Simon128256KeySchedule [1, 2, 3, 4] (replicate 72 0) ! ((5::nat) + 1)
          XOR ROTR64 (Simon128256KeySchedule [1, 2, 3, 4] (replicate 72 0) ! ((5::nat) + 1)) 1))
   \<and> (Simon128256KeySchedule [1, 2, 3, 4] (replicate 72 0) ! ((65::nat) + 4) =
        Simon128256KeySchedule [1, 2, 3, 4] (replicate 72 0) ! (65::nat) XOR (c64 XOR (if (65::nat) = 65 then 1 else 0)
          XOR ROTR64 (Simon128256KeySchedule [1, 2, 3, 4] (replicate 72 0) ! ((65::nat) + 3)) 3
          XOR ROTR64 (Simon128256KeySchedule [1, 2, 3, 4] (replicate 72 0) ! ((65::nat) + 3)) 4
          XOR Simon128256KeySchedule [1, 2, 3, 4] (replicate 72 0) ! ((65::nat) + 1)
          XOR ROTR64 (Simon128256KeySchedule [1, 2, 3, 4] (replicate 72 0) ! ((65::nat) + 1)) 1))
   \<and> Simon64128KeySchedule ([1, 2, 3, 4][2 := 9]) (replicate 44 0) ! 4 = Simon64128KeySchedule [1, 2, 3, 4] (replicate 44 0) ! 4
   \<and> Simon128256KeySchedule ([1, 2, 3, 4][2 := 7]) (replicate 72 0) ! 4 = Simon128256KeySchedule [1, 2, 3, 4] (replicate 72 0) ! 4"
proof -
  have T: "(\<forall>j<40. Simon64128KeySchedule [1, 2, 3, 4] (replicate 44 0) ! (j + 4) =
        c32 XOR ucast (drop_bit j z_Simon64128 AND 1) XOR Simon64128KeySchedule [1, 2, 3, 4] (replicate 44 0) ! j
          XOR ROTR32 (Simon64128KeySchedule [1, 2, 3, 4] (replicate 44 0) ! (j + 3)) 3
          XOR Simon64128KeySchedule [1, 2, 3, 4] (replicate 44 0) ! (j + 1)
          XOR ROTR32 (Simon64128KeySchedule [1, 2, 3, 4] (replicate 44 0) ! (j + 3)) 4
          XOR ROTR32 (Simon64128KeySchedule [1, 2, 3, 4] (replicate 44 0) ! (j + 1)) 1)
   \<and> (\<forall>j<64. Simon128256KeySchedule [1, 2, 3, 4] (replicate 72 0) ! (j + 4) =
        Simon128256KeySchedule [1, 2, 3, 4] (replicate 72 0) ! j XOR (c64 XOR (drop_bit j z_Simon128256 AND 1)
          XOR ROTR64 (Simon128256KeySchedule [1, 2, 3, 4] (replicate 72 0) ! (j + 3)) 3
          XOR ROTR64 (Simon128256KeySchedule [1, 2, 3, 4] (replicate 72 0) ! (j + 3)) 4
          XOR Simon128256KeySchedule [1, 2, 3, 4] (replicate 72 0) ! (j + 1)
          XOR ROTR64 (Simon128256KeySchedule [1, 2, 3, 4] (replicate 72 0) ! (j + 1)) 1))
   \<and> (\<forall>j. 64 \<le> j \<and> j < 68 \<longrightarrow> Simon128256KeySchedule [1, 2, 3, 4] (replicate 72 0) ! (j + 4) =
        Simon128256KeySchedule [1, 2, 3, 4] (replicate 72 0) ! j XOR (c64 XOR (if j = 65 then 1 else 0)
          XOR ROTR64 (Simon128256KeySchedule [1, 2, 3, 4] (replicate 72 0) ! (j + 3)) 3
          XOR ROTR64 (Simon128256KeySchedule [1, 2, 3, 4] (replicate 72 0) ! (j + 3)) 4
          XOR Simon128256KeySchedule [1, 2, 3, 4] (replicate 72 0) ! (j + 1)
          XOR ROTR64 (Simon128256KeySchedule [1, 2, 3, 4] (replicate 72 0) ! (j + 1)) 1))
   \<and> Simon64128KeySchedule ([1, 2, 3, 4][2 := 9]) (replicate 44 0) ! 4 = Simon64128KeySchedule [1, 2, 3, 4] (replicate 44 0) ! 4
   \<and> Simon128256KeySchedule ([1, 2, 3, 4][2 := 7]) (replicate 72 0) ! 4 = Simon128256KeySchedule [1, 2, 3, 4] (replicate 72 0) ! 4"
    by (rule C4_four_word_schedules; simp)
  have l1: "(5::nat) < 40" by simp
  have l2: "(5::nat) < 64" by simp
  have l3: "64 \<le> (65::nat) \<and> (65::nat) < 68" by simp
  show ?thesis
    by (intro conjI)
      (rule T [THEN conjunct1, rule_format, OF l1],
       rule T [THEN conjunct2, THEN conjunct1, rule_format, OF l2],
       rule T [THEN conjunct2, THEN conjunct2, THEN conjunct1, rule_format, OF l3],
       rule T [THEN conjunct2, THEN conjunct2, THEN conjunct2, THEN conjunct1],
       rule T [THEN conjunct2, THEN conjunct2, THEN conjunct2, THEN conjunct2])
qed

text \<open>
  The claim as stated mixes the register two back into the update. For the key words
  4, 0, 1, 0 the first computed entry differs from that formula, whether it replaces the
  register itself or is mixed in beside it, and it is the same as for the key words
  4, 0, 0, 0.
\<close>

theorem C4_counterexample:
  "(let rk = Simon64128KeySchedule [4, 0, 1, 0] (replicate 44 0) in
      rk ! 4 \<noteq> c32 XOR ucast (z_Simon64128 AND 1) XOR rk ! 2 XOR ROTR32 (rk ! 3) 3
                 XOR ROTR32 (rk ! 3) 4 XOR rk ! 1 XOR ROTR32 (rk ! 1) 1
      \<and> rk ! 4 \<noteq> rk ! 0 XOR c32 XOR ucast (z_Simon64128 AND 1) XOR rk ! 2
                 XOR ROTR32 (rk ! 3) 3 XOR ROTR32 (rk ! 3) 4 XOR rk ! 1 XOR ROTR32 (rk ! 1) 1
      \<and> rk ! 4 = Simon64128KeySchedule [4, 0, 0, 0] (replicate 44 0) ! 4)
   \<and> (let rk = Simon128256KeySchedule [4, 0, 1, 0] (replicate 72 0) in
      rk ! 4 \<noteq> rk ! 2 XOR (c64 XOR (z_Simon128256 AND 1) XOR ROTR64 (rk ! 3) 3
                 XOR ROTR64 (rk ! 3) 4 XOR rk ! 1 XOR ROTR64 (rk ! 1) 1)
      \<and> rk ! 4 \<noteq> rk ! 0 XOR (c64 XOR (z_Simon128256 AND 1) XOR rk ! 2 XOR ROTR64 (rk ! 3) 3
                 XOR ROTR64 (rk ! 3) 4 XOR rk ! 1 XOR ROTR64 (rk ! 1) 1)
      \<and> rk ! 4 = Simon128256KeySchedule [4, 0, 0, 0] (replicate 72 0) ! 4)"
proof -
  have a: "Simon64128KeySchedule [4, 0, 1, 0] (replicate 44 0) ! 4 = 0xfffffff9"
    "Simon64128KeySchedule [4, 0, 0, 0] (replicate 44 0) ! 4 = 0xfffffff9"
    by (simp_all add: ks64128_first c32_def z_Simon64128_def ROTR32_def)
  have b: "Simon64128KeySchedule [4, 0, 1, 0] (replicate 44 0) ! 0 = 4"
    "Simon64128KeySchedule [4, 0, 1, 0] (replicate 44 0) ! 1 = 0"
    "Simon64128KeySchedule [4, 0, 1, 0] (replicate 44 0) ! 2 = 1"
    "Simon64128KeySchedule [4, 0, 1, 0] (replicate 44 0) ! 3 = 0"
    by (simp_all add: ks64128_nth_key)
  have c: "Simon128256KeySchedule [4, 0, 1, 0] (replicate 72 0) ! 4 = 0xfffffffffffffff9"
    "Simon128256KeySchedule [4, 0, 0, 0] (replicate 72 0) ! 4 = 0xfffffffffffffff9"
    by (simp_all add: ks128256_first c64_def z_Simon128256_def ROTR64_def)
  have d: "Simon128256KeySchedule [4, 0, 1, 0] (replicate 72 0) ! 0 = 4"
    "Simon128256KeySchedule [4, 0, 1, 0] (replicate 72 0) ! 1 = 0"
    "Simon128256KeySchedule [4, 0, 1, 0] (replicate 72 0) ! 2 = 1"
    "Simon128256KeySchedule [4, 0, 1, 0] (replicate 72 0) ! 3 = 0"
    by (simp_all add: ks128256_nth_key)
  show ?thesis
    unfolding Let_def a b c d
    by (simp add: c32_def c64_def z_Simon64128_def z_Simon128256_def ROTR32_def ROTR64_def)
qed

text \<open>
  C6, as amended. The five key schedules hold three distinct sequence words, each a literal
  of the source: Simon64/96 and Simon128/128 use the same one, Simon64/128 and Simon128/192
  use the same one, and Simon128/256 has its own. Each schedule consumes its word from the
  lowest bit, one bit per sub-round of its loop: the entry that sub-round \<open>j\<close> computes
  mixes in bit \<open>j\<close> of \<open>z\<close>.
\<close>

theorem C6_sequence_words:
  assumes "length rka = 42" "length rkb = 44" "length rkc = 68" "length rkd = 69"
    "length rke = 72"
  shows "z_Simon6496 = z_Simon128128 \<and> z_Simon64128 = z_Simon128192
   \<and> distinct [z_Simon6496, z_Simon64128, z_Simon128256]
   \<and> (\<forall>j<39. Simon6496KeySchedule Ka rka ! (j + 3) =
        c32 XOR ucast (drop_bit j z_Simon6496 AND 1) XOR Simon6496KeySchedule Ka rka ! j
          XOR ROTR32 (Simon6496KeySchedule Ka rka ! (j + 2)) 3
          XOR ROTR32 (Simon6496KeySchedule Ka rka ! (j + 2)) 4)
   \<and> (\<forall>j<40. Simon64128KeySchedule Kb rkb ! (j + 4) =
        c32 XOR ucast (drop_bit j z_Simon64128 AND 1) XOR Simon64128KeySchedule Kb rkb ! j
          XOR ROTR32 (Simon64128KeySchedule Kb rkb ! (j + 3)) 3
          XOR Simon64128KeySchedule Kb rkb ! (j + 1)
          XOR ROTR32 (Simon64128KeySchedule Kb rkb ! (j + 3)) 4
          XOR ROTR32 (Simon64128KeySchedule Kb rkb ! (j + 1)) 1)
   \<and> (\<forall>j<64. Simon128128KeySchedule Kc rkc ! (j + 2) =
        Simon128128KeySchedule Kc rkc ! j XOR (c64 XOR (drop_bit j z_Simon128128 AND 1)
          XOR ROTR64 (Simon128128KeySchedule Kc rkc ! (j + 1)) 3
          XOR ROTR64 (Simon128128KeySchedule Kc rkc ! (j + 1)) 4))
   \<and> (\<forall>j<63. Simon128192KeySchedule Kd rkd ! (j + 3) =
        Simon128192KeySchedule Kd rkd ! j XOR (c64 XOR (drop_bit j z_Simon128192 AND 1)
          XOR ROTR64 (Simon128192KeySchedule Kd rkd ! (j + 2)) 3
          XOR ROTR64 (Simon128192KeySchedule Kd rkd ! (j + 2)) 4))
   \<and> (\<forall>j<64. Simon128256KeySchedule Ke rke ! (j + 4) =
        Simon128256KeySchedule Ke rke ! j XOR (c64 XOR (drop_bit j z_Simon128256 AND 1)
          XOR ROTR64 (Simon128256KeySchedule Ke rke ! (j + 3)) 3
          XOR ROTR64 (Simon128256KeySchedule Ke rke ! (j + 3)) 4
          XOR Simon128256KeySchedule Ke rke ! (j + 1)
          XOR ROTR64 (Simon128256KeySchedule Ke rke ! (j + 1)) 1))"
proof -
  have "z_Simon6496 = z_Simon128128" "z_Simon64128 = z_Simon128192"
    "distinct [z_Simon6496, z_Simon64128, z_Simon128256]"
    by (simp_all add: z_Simon6496_def z_Simon64128_def z_Simon128128_def z_Simon128192_def
          z_Simon128256_def)
  then show ?thesis
    using ks6496_loop_rec [of rka Ka] ks64128_loop_rec [of rkb Kb] ks128128_loop_rec [of rkc Kc]
      ks128192_loop_rec [of rkd Kd] ks128256_loop_rec [of rke Ke] assms
    by simp
qed

theorem C6_sequence_words_witness:
  "z_Simon6496 = z_Simon128128
   \<and> z_Simon64128 = z_Simon128192
   \<and> distinct [z_Simon6496, z_Simon64128, z_Simon128256]
   \<and> (Simon6496KeySchedule [1, 2, 3] (replicate 42 0) ! ((5::nat) + 3) =
        c32 XOR ucast (drop_bit (5::nat) z_Simon6496 AND 1) XOR Simon6496KeySchedule [1, 2, 3] (replicate 42 0) ! (5::nat)
          XOR ROTR32 (Simon6496KeySchedule [1, 2, 3] (replicate 42 0) ! ((5::nat) + 2)) 3
          XOR ROTR32 (Simon6496KeySchedule [1, 2, 3] (replicate 42 0) ! ((5::nat) + 2)) 4)
   \<and> (Simon64128KeySchedule [1, 2, 3, 4] (replicate 44 0) ! ((5::nat) + 4) =
        c32 XOR ucast (drop_bit (5::nat) z_Simon64128 AND 1) XOR Simon64128KeySchedule [1, 2, 3, 4] (replicate 44 0) ! (5::nat)
          XOR ROTR32 (Simon64128KeySchedule [1, 2, 3, 4] (replicate 44 0) ! ((5::nat) + 3)) 3
          XOR Simon64128KeySchedule [1, 2, 3, 4] (replicate 44 0) ! ((5::nat) + 1)
          XOR ROTR32 (Simon64128KeySchedule [1, 2, 3, 4] (replicate 44 0) ! ((5::nat) + 3)) 4
          XOR ROTR32 (Simon64128KeySchedule [1, 2, 3, 4] (replicate 44 0) ! ((5::nat) + 1)) 1)
   \<and> (Simon128128KeySchedule [1, 2] (replicate 68 0) ! ((5::nat) + 2) =
        Simon128128KeySchedule [1, 2] (replicate 68 0) ! (5::nat) XOR (c64 XOR (drop_bit (5::nat) z_Simon128128 AND 1)
          XOR ROTR64 (Simon128128KeySchedule [1, 2] (replicate 68 0) ! ((5::nat) + 1)) 3
          XOR ROTR64 (Simon128128KeySchedule [1, 2] (replicate 68 0) ! ((5::nat) + 1)) 4))
   \<and> (Simon128192KeySchedule [1, 2, 3] (replicate 69 0) ! ((5::nat) + 3) =
        Simon128192KeySchedule [1, 2, 3] (replicate 69 0) ! (5::nat) XOR (c64 XOR (drop_bit (5::nat) z_Simon128192 AND 1)
          XOR ROTR64 (Simon128192KeySchedule [1, 2, 3] (replicate 69 0) ! ((5::nat) + 2)) 3
          XOR ROTR64 (Simon128192KeySchedule [1, 2, 3] (replicate 69 0) ! ((5::nat) + 2)) 4))
   \<and> (Simon128256KeySchedule [1, 2, 3, 4] (replicate 72 0) ! ((5::nat) + 4) =
        Simon128256KeySchedule [1, 2, 3, 4] (replicate 72 0) ! (5::nat) XOR (c64 XOR (drop_bit (5::nat) z_Simon128256 AND 1)
          XOR ROTR64 (Simon128256KeySchedule [1, 2, 3, 4] (replicate 72 0) ! ((5::nat) + 3)) 3
          XOR ROTR64 (Simon128256KeySchedule [1, 2, 3, 4] (replicate 72 0) ! ((5::nat) + 3)) 4
          XOR Simon128256KeySchedule [1, 2, 3, 4] (replicate 72 0) ! ((5::nat) + 1)
          XOR ROTR64 (Simon128256KeySchedule [1, 2, 3, 4] (replicate 72 0) ! ((5::nat) + 1)) 1))"
proof -
  have T: "z_Simon6496 = z_Simon128128 \<and> z_Simon64128 = z_Simon128192
   \<and> distinct [z_Simon6496, z_Simon64128, z_Simon128256]
   \<and> (\<forall>j<39. Simon6496KeySchedule [1, 2, 3] (replicate 42 0) ! (j + 3) =
        c32 XOR ucast (drop_bit j z_Simon6496 AND 1) XOR Simon6496KeySchedule [1, 2, 3] (replicate 42 0) ! j
          XOR ROTR32 (Simon6496KeySchedule [1, 2, 3] (replicate 42 0) ! (j + 2)) 3
          XOR ROTR32 (Simon6496KeySchedule [1, 2, 3] (replicate 42 0) ! (j + 2)) 4)
   \<and> (\<forall>j<40. Simon64128KeySchedule [1, 2, 3, 4] (replicate 44 0) ! (j + 4) =
        c32 XOR ucast (drop_bit j z_Simon64128 AND 1) XOR Simon64128KeySchedule [1, 2, 3, 4] (replicate 44 0) ! j
          XOR ROTR32 (Simon64128KeySchedule [1, 2, 3, 4] (replicate 44 0) ! (j + 3)) 3
          XOR Simon64128KeySchedule [1, 2, 3, 4] (replicate 44 0) ! (j + 1)
          XOR ROTR32 (Simon64128KeySchedule [1, 2, 3, 4] (replicate 44 0) ! (j + 3)) 4
          XOR ROTR32 (Simon64128KeySchedule [1, 2, 3, 4] (replicate 44 0) ! (j + 1)) 1)
   \<and> (\<forall>j<64. Simon128128KeySchedule [1, 2] (replicate 68 0) ! (j + 2) =
        Simon128128KeySchedule [1, 2] (replicate 68 0) ! j XOR (c64 XOR (drop_bit j z_Simon128128 AND 1)
          XOR ROTR64 (Simon128128KeySchedule [1, 2] (replicate 68 0) ! (j + 1)) 3
          XOR ROTR64 (Simon128128KeySchedule [1, 2] (replicate 68 0) ! (j + 1)) 4))
   \<and> (\<forall>j<63. Simon128192KeySchedule [1, 2, 3] (replicate 69 0) ! (j + 3) =
        Simon128192KeySchedule [1, 2, 3] (replicate 69 0) ! j XOR (c64 XOR (drop_bit j z_Simon128192 AND 1)
          XOR ROTR64 (Simon128192KeySchedule [1, 2, 3] (replicate 69 0) ! (j + 2)) 3
          XOR ROTR64 (Simon128192KeySchedule [1, 2, 3] (replicate 69 0) ! (j + 2)) 4))
   \<and> (\<forall>j<64. Simon128256KeySchedule [1, 2, 3, 4] (replicate 72 0) ! (j + 4) =
        Simon128256KeySchedule [1, 2, 3, 4] (replicate 72 0) ! j XOR (c64 XOR (drop_bit j z_Simon128256 AND 1)
          XOR ROTR64 (Simon128256KeySchedule [1, 2, 3, 4] (replicate 72 0) ! (j + 3)) 3
          XOR ROTR64 (Simon128256KeySchedule [1, 2, 3, 4] (replicate 72 0) ! (j + 3)) 4
          XOR Simon128256KeySchedule [1, 2, 3, 4] (replicate 72 0) ! (j + 1)
          XOR ROTR64 (Simon128256KeySchedule [1, 2, 3, 4] (replicate 72 0) ! (j + 1)) 1))"
    by (rule C6_sequence_words; simp)
  have l1: "(5::nat) < 39" by simp
  have l2: "(5::nat) < 40" by simp
  have l3: "(5::nat) < 64" by simp
  have l4: "(5::nat) < 63" by simp
  have l5: "(5::nat) < 64" by simp
  show ?thesis
    by (intro conjI)
      (rule T [THEN conjunct1],
       rule T [THEN conjunct2, THEN conjunct1],
       rule T [THEN conjunct2, THEN conjunct2, THEN conjunct1],
       rule T [THEN conjunct2, THEN conjunct2, THEN conjunct2, THEN conjunct1, rule_format, OF l1],
       rule T [THEN conjunct2, THEN conjunct2, THEN conjunct2, THEN conjunct2, THEN conjunct1, rule_format, OF l2],
       rule T [THEN conjunct2, THEN conjunct2, THEN conjunct2, THEN conjunct2, THEN conjunct2, THEN conjunct1, rule_format, OF l3],
       rule T [THEN conjunct2, THEN conjunct2, THEN conjunct2, THEN conjunct2, THEN conjunct2, THEN conjunct2, THEN conjunct1, rule_format, OF l4],
       rule T [THEN conjunct2, THEN conjunct2, THEN conjunct2, THEN conjunct2, THEN conjunct2, THEN conjunct2, THEN conjunct2, rule_format, OF l5])
qed

text \<open>
  The claim as stated gives each variant a sequence of its own. Two pairs of variants share
  their word, and the five words are three values.
\<close>

theorem C6_counterexample:
  "z_Simon6496 = z_Simon128128 \<and> z_Simon64128 = z_Simon128192
   \<and> card {z_Simon6496, z_Simon64128, z_Simon128128, z_Simon128192, z_Simon128256} = 3"
proof -
  have e: "z_Simon128128 = z_Simon6496" "z_Simon128192 = z_Simon64128"
    by (simp_all add: z_Simon6496_def z_Simon64128_def z_Simon128128_def z_Simon128192_def)
  have d: "z_Simon6496 \<noteq> z_Simon64128" "z_Simon6496 \<noteq> z_Simon128256"
    "z_Simon64128 \<noteq> z_Simon128256"
    by (simp_all add: z_Simon6496_def z_Simon64128_def z_Simon128256_def)
  have "{z_Simon6496, z_Simon64128, z_Simon128128, z_Simon128192, z_Simon128256}
      = {z_Simon6496, z_Simon64128, z_Simon128256}"
    unfolding e by auto
  then have "card {z_Simon6496, z_Simon64128, z_Simon128128, z_Simon128192, z_Simon128256} = 3"
    using d by simp
  then show ?thesis using e by simp
qed

section \<open>Unsupported sizes in the entry point\<close>

lemma copy_in_loop_ok:
  "length dst = length a \<Longrightarrow> i \<le> length a \<Longrightarrow> take i dst = take i a \<Longrightarrow>
     copy_in_loop i (length a) a dst = Some a"
proof (induction "length a - i" arbitrary: i dst)
  case 0
  then have "i = length a" by simp
  then show ?case using 0(2,4) by (subst copy_in_loop.simps) simp
next
  case (Suc n)
  then have i: "i < length a" by simp
  have "take (Suc i) (dst[i := a ! i]) = take (Suc i) a"
    using i Suc(3,5) by (simp add: take_Suc_conv_app_nth)
  then have "copy_in_loop (Suc i) (length a) a (dst[i := a ! i]) = Some a"
    using Suc(2,3) i by (intro Suc(1)) simp_all
  then show ?case using i Suc(3) by (subst copy_in_loop.simps) simp
qed

lemma copy_out_loop_ok:
  "n \<le> length src \<Longrightarrow> n \<le> length dst \<Longrightarrow> i \<le> n \<Longrightarrow>
     copy_out_loop i n src dst = Some (take i dst @ take (n - i) (drop i src) @ drop n dst)"
proof (induction "n - i" arbitrary: i dst)
  case 0
  then have "i = n" by simp
  then show ?case by (subst copy_out_loop.simps) simp
next
  case (Suc k)
  then have i: "i < n" by simp
  have a: "take (Suc i) (dst[i := src ! i]) = take i dst @ [src ! i]"
    using i Suc(4) by (simp add: take_Suc_conv_app_nth)
  have b: "drop n (dst[i := src ! i]) = drop n dst" using i by simp
  have c: "take (n - i) (drop i src) = src ! i # take (n - Suc i) (drop (Suc i) src)"
  proof -
    have "drop i src = src ! i # drop (Suc i) src"
      using i Suc(3) by (simp add: Cons_nth_drop_Suc)
    moreover have "n - i = Suc (n - Suc i)" using i by simp
    ultimately show ?thesis by simp
  qed
  have "copy_out_loop (Suc i) n src (dst[i := src ! i])
      = Some (take (Suc i) (dst[i := src ! i]) @ take (n - Suc i) (drop (Suc i) src)
          @ drop n (dst[i := src ! i]))"
    using Suc(2,3,4) i by (intro Suc(1)) simp_all
  then have "copy_out_loop (Suc i) n src (dst[i := src ! i])
      = Some (take i dst @ take (n - i) (drop i src) @ drop n dst)"
    by (simp only: a b c append_Cons append_Nil append_assoc)
  then show ?case using i Suc(3,4) by (subst copy_out_loop.simps) simp
qed

lemma dpi_unsupported_block:
  assumes "length txt_i * 8 \<noteq> 64" "length txt_i * 8 \<noteq> 128" "length txt_i \<le> length txt_o"
  shows "dpi_c_run_simon fr crypto_mode txt_i key_i txt_o =
     Some ([INFO (length txt_i * 8) (length key_i * 8)
              (if crypto_mode = MODE_ENC then ''encryption'' else ''decryption''),
            FAILURE (length txt_i * 8) (length key_i * 8)],
           map (txto_u8_0 fr) [0..<length txt_i] @ drop (length txt_i) txt_o)"
proof -
  have 1: "copy_in_loop 0 (length txt_i) txt_i (local_array (txti_u8_0 fr) (length txt_i))
      = Some txt_i"
    by (rule copy_in_loop_ok) (simp_all add: local_array_def)
  have 2: "copy_in_loop 0 (length key_i) key_i (local_array (key_u8_0 fr) (length key_i))
      = Some key_i"
    by (rule copy_in_loop_ok) (simp_all add: local_array_def)
  have 3: "copy_out_loop 0 (length txt_i) (local_array (txto_u8_0 fr) (length txt_i)) txt_o
      = Some (map (txto_u8_0 fr) [0..<length txt_i] @ drop (length txt_i) txt_o)"
    using copy_out_loop_ok [of "length txt_i" "local_array (txto_u8_0 fr) (length txt_i)" txt_o 0]
      assms(3)
    by (simp add: local_array_def)
  show ?thesis
    using assms(1,2) by (simp add: dpi_c_run_simon_def Let_def 1 2 3)
qed

lemma Words32ToBytes_overrun:
  assumes "length words = 2" "length bytes = 8"
  shows "Words32ToBytes words bytes 8 = None"
  unfolding Words32ToBytes_def
  by (subst Words32ToBytes_loop.simps, simp add: assms,
      subst Words32ToBytes_loop.simps, simp add: assms,
      subst Words32ToBytes_loop.simps, simp add: assms)

lemma Words64ToBytes_overrun:
  assumes "length words = 2" "length bytes = 16"
  shows "Words64ToBytes words bytes 16 = None"
  unfolding Words64ToBytes_def
  by (subst Words64ToBytes_loop.simps, simp add: assms,
      subst Words64ToBytes_loop.simps, simp add: assms,
      subst Words64ToBytes_loop.simps, simp add: assms)

lemma dpi_unsupported_key_64:
  assumes "length txt_i = 8" "length key_i * 8 \<noteq> 96" "length key_i * 8 \<noteq> 128"
  shows "dpi_c_run_simon fr crypto_mode txt_i key_i txt_o = None"
proof -
  have 1: "copy_in_loop 0 (length txt_i) txt_i (local_array (txti_u8_0 fr) (length txt_i))
      = Some txt_i"
    by (rule copy_in_loop_ok) (simp_all add: local_array_def)
  have 2: "copy_in_loop 0 (length key_i) key_i (local_array (key_u8_0 fr) (length key_i))
      = Some key_i"
    by (rule copy_in_loop_ok) (simp_all add: local_array_def)
  have 3: "Words32ToBytes (local_array (txto_u32_0 fr) 2) (local_array (txto_u8_0 fr) 8) 8 = None"
    by (rule Words32ToBytes_overrun) (simp_all add: local_array_def)
  show ?thesis
    using assms 1 2 3
    by (simp add: dpi_c_run_simon_def Let_def split: Option.bind_split)
qed

lemma dpi_unsupported_key_128:
  assumes "length txt_i = 16" "length key_i * 8 \<noteq> 128" "length key_i * 8 \<noteq> 192"
    "length key_i * 8 \<noteq> 256"
  shows "dpi_c_run_simon fr crypto_mode txt_i key_i txt_o = None"
proof -
  have 1: "copy_in_loop 0 (length txt_i) txt_i (local_array (txti_u8_0 fr) (length txt_i))
      = Some txt_i"
    by (rule copy_in_loop_ok) (simp_all add: local_array_def)
  have 2: "copy_in_loop 0 (length key_i) key_i (local_array (key_u8_0 fr) (length key_i))
      = Some key_i"
    by (rule copy_in_loop_ok) (simp_all add: local_array_def)
  have 3: "Words64ToBytes (local_array (txto_u64_0 fr) 2) (local_array (txto_u8_0 fr) 16) 16
      = None"
    by (rule Words64ToBytes_overrun) (simp_all add: local_array_def)
  show ?thesis
    using assms 1 2 3
    by (simp add: dpi_c_run_simon_def Let_def split: Option.bind_split)
qed

text \<open>
  C7. For a block size and key size outside the five supported pairs the operation is to
  report the unsupported variant and to leave the caller's output buffer unwritten. The code
  does print its failure line and calls no key schedule and no cipher function, but it has no
  return after that line and runs on to its last loop. For a 32-bit block and a 64-bit key it
  stores into \<open>txt_o\<close> the four bytes of its local array \<open>txto_u8\<close>, which nothing has
  written. For a 64-bit block and a 64-bit key it first calls \<^verbatim>\<open>Words32ToBytes\<close> with a
  count of 8 words on the 2 words of \<open>txto_u32\<close>, an access outside both arrays.
\<close>

theorem C7_unsupported_variant_output:
  "dpi_c_run_simon fr MODE_ENC [1, 2, 3, 4] [0, 0, 0, 0, 0, 0, 0, 0] [0, 0, 0, 0]
     = Some ([INFO 32 64 ''encryption'', FAILURE 32 64],
             [txto_u8_0 fr 0, txto_u8_0 fr 1, txto_u8_0 fr 2, txto_u8_0 fr 3])
   \<and> dpi_c_run_simon fr MODE_ENC [1, 2, 3, 4, 5, 6, 7, 8] [0, 0, 0, 0, 0, 0, 0, 0]
         [0, 0, 0, 0, 0, 0, 0, 0] = None"
proof -
  have "dpi_c_run_simon fr MODE_ENC [1, 2, 3, 4] [0, 0, 0, 0, 0, 0, 0, 0] [0, 0, 0, 0]
     = Some ([INFO 32 64 ''encryption'', FAILURE 32 64],
             [txto_u8_0 fr 0, txto_u8_0 fr 1, txto_u8_0 fr 2, txto_u8_0 fr 3])"
    using dpi_unsupported_block [of "[1, 2, 3, 4]" "[0, 0, 0, 0]" fr MODE_ENC
        "[0, 0, 0, 0, 0, 0, 0, 0]"]
    by (simp add: numeral_eq_Suc)
  moreover have "dpi_c_run_simon fr MODE_ENC [1, 2, 3, 4, 5, 6, 7, 8] [0, 0, 0, 0, 0, 0, 0, 0]
         [0, 0, 0, 0, 0, 0, 0, 0] = None"
    by (rule dpi_unsupported_key_64) simp_all
  ultimately show ?thesis by simp
qed

end
